theory Spec2Isabelle
  imports Main "HOL-Library.Word"
begin

unbundle bit_operations_syntax

section \<open>go-hachi: the CHIP-8 machine state\<close>

text \<open>
  Package \<open>hachi\<close>: the emulator (\<open>Chip8\<close>, \<open>New\<close>, \<open>Tick\<close>) and the simple
  disassembler (\<open>DisassembleSimple\<close>).  Go's \<open>uint8\<close> and \<open>uint16\<close> are words,
  \<open>int\<close> is \<open>int\<close>, an index out of range and a division by zero are the result
  \<open>Panic\<close>, an \<open>error\<close> return is a value.
\<close>

type_synonym byte = "8 word"
type_synonym uint16 = "16 word"

datatype err = StackOverflowErr | BadCodeErr | OverflowErr | AccessErr

text \<open>
  A Go slice is a window on a backing array.  \<open>Own xs\<close> is a slice with an array of its
  own (\<open>make\<close>); \<open>View off n\<close> is a slice of \<open>n\<close> elements that starts at byte \<open>off\<close>
  of \<open>Memory\<close>: what \<open>New\<close> builds for \<open>Stack\<close> and \<open>Screen\<close> in realistic mode, so
  that a write through either is a write to \<open>Memory\<close>.
\<close>

datatype 'a slice = Own "'a list" | View nat nat

record Chip8Settings =
  MemorySize :: uint16
  StackSize :: int
  SWidth :: byte
  SHeight :: byte
  Realistic :: bool
  LegacyMode :: bool

text \<open>
  \<open>lastTimerUpdate\<close> is \<open>None\<close> for the zero \<open>time.Time\<close>, else nanoseconds;
  \<open>wii\<close> is the pending \<open>waitInputInfo\<close> (register, zeroBits); \<open>pLegacy\<close> stands for
  the four function pointers \<open>pLdMemory\<close>, \<open>pLdSetMemory\<close>, \<open>pShr\<close>, \<open>pShl\<close>, which
  \<open>New\<close> all selects by \<open>LegacyMode\<close>.
\<close>

record Chip8 =
  Memory :: "byte list"
  V :: "byte list"
  I :: uint16
  Stack :: "uint16 slice"
  SP :: int
  PC :: uint16
  DT :: byte
  ST :: byte
  Keyboard :: uint16
  Screen :: "byte slice"
  Width :: byte
  Height :: byte
  TimerInterval :: int
  lastTimerUpdate :: "int option"
  wii :: "(byte \<times> uint16) option"
  pLegacy :: bool

text \<open>The calls made on the driver, in order.\<close>

datatype event = OnInit | OnUpdate | Cls | UpdateScreen | Beep

text \<open>
  What a call of \<open>Tick\<close> does: it panics, it never returns, or it returns an error
  or nil, leaving the machine in a state and having called the driver.
\<close>

datatype result = Panic | Hang | Return "err option" Chip8 "event list"

subsection \<open>Slices\<close>

definition stack_len :: "Chip8 \<Rightarrow> nat" where
  "stack_len c = (case Stack c of Own xs \<Rightarrow> length xs | View off n \<Rightarrow> n)"

text \<open>A \<open>uint16\<close> seen through the reinterpreted slice header: little-endian.\<close>

definition stack_get :: "Chip8 \<Rightarrow> nat \<Rightarrow> uint16" where
  "stack_get c i = (case Stack c of
      Own xs \<Rightarrow> xs ! i
    | View off n \<Rightarrow>
        push_bit 8 (ucast (Memory c ! (off + 2 * i + 1))) OR ucast (Memory c ! (off + 2 * i)))"

definition stack_set :: "Chip8 \<Rightarrow> nat \<Rightarrow> uint16 \<Rightarrow> Chip8" where
  "stack_set c i v = (case Stack c of
      Own xs \<Rightarrow> c\<lparr>Stack := Own (xs[i := v])\<rparr>
    | View off n \<Rightarrow>
        c\<lparr>Memory := (Memory c)[off + 2 * i := ucast v, off + 2 * i + 1 := ucast (drop_bit 8 v)]\<rparr>)"

definition screen_len :: "Chip8 \<Rightarrow> nat" where
  "screen_len c = (case Screen c of Own xs \<Rightarrow> length xs | View off n \<Rightarrow> n)"

definition screen_get :: "Chip8 \<Rightarrow> nat \<Rightarrow> byte" where
  "screen_get c i = (case Screen c of Own xs \<Rightarrow> xs ! i | View off n \<Rightarrow> Memory c ! (off + i))"

definition screen_set :: "Chip8 \<Rightarrow> nat \<Rightarrow> byte \<Rightarrow> Chip8" where
  "screen_set c i v = (case Screen c of
      Own xs \<Rightarrow> c\<lparr>Screen := Own (xs[i := v])\<rparr>
    | View off n \<Rightarrow> c\<lparr>Memory := (Memory c)[off + i := v]\<rparr>)"

subsection \<open>Settings and construction\<close>

text \<open>\<open>Validate\<close>: \<open>True\<close> where the source returns nil.\<close>

definition Validate :: "Chip8Settings \<Rightarrow> bool" where
  "Validate s \<longleftrightarrow>
     \<not> (SWidth s mod 8 \<noteq> 0) \<and> \<not> (SHeight s mod 8 \<noteq> 0) \<and>
     \<not> (SWidth s < 8) \<and> \<not> (SHeight s < 15) \<and>
     (Realistic s \<longrightarrow>
        \<not> (StackSize s > 12) \<and>
        \<not> ((ucast (SWidth s) :: uint16) * ucast (SHeight s) > 2048))"

definition DefaultSettings :: Chip8Settings where
  "DefaultSettings = \<lparr> MemorySize = 0x1000, StackSize = 12, SWidth = 64, SHeight = 32,
     Realistic = True, LegacyMode = False \<rparr>"

definition fonts :: "byte list" where
  "fonts = [
    0xF0, 0x90, 0x90, 0x90, 0xF0,
    0x20, 0x60, 0x20, 0x20, 0x70,
    0xF0, 0x10, 0xF0, 0x80, 0xF0,
    0xF0, 0x10, 0xF0, 0x10, 0xF0,
    0x90, 0x90, 0xF0, 0x10, 0x10,
    0xF0, 0x80, 0xF0, 0x10, 0xF0,
    0xF0, 0x80, 0xF0, 0x90, 0xF0,
    0xF0, 0x10, 0x20, 0x40, 0x40,
    0xF0, 0x90, 0xF0, 0x90, 0xF0,
    0xF0, 0x90, 0xF0, 0x10, 0xF0,
    0xF0, 0x90, 0xF0, 0x90, 0x90,
    0xE0, 0x90, 0xE0, 0x90, 0xE0,
    0xF0, 0x80, 0x80, 0x80, 0xF0,
    0xE0, 0x90, 0x90, 0x90, 0xE0,
    0xF0, 0x80, 0xF0, 0x80, 0xF0,
    0xF0, 0x80, 0xF0, 0x80, 0x80]"

text \<open>Go's \<open>copy(dst, src)\<close>: the first \<open>min (len dst) (len src)\<close> elements.\<close>

definition copy :: "'a list \<Rightarrow> 'a list \<Rightarrow> 'a list" where
  "copy dst src = take (length dst) src @ drop (length src) dst"

text \<open>
  \<open>New\<close>, for a registered driver.  \<open>Some None\<close> is the error of \<open>Validate\<close>
  and \<open>None\<close> a panic: a slice expression out of range, or \<open>make\<close> with a
  negative length.  In realistic
  mode the stack is the \<open>StackSize\<close> bytes of memory from \<open>0xEA0\<close> with the length and
  capacity of the slice header halved, and the screen is the memory from \<open>0xF00\<close>.
\<close>

definition New :: "Chip8Settings \<Rightarrow> (Chip8 \<times> event list) option option" where
  "New s =
    (if \<not> Validate s then Some None
     else
       let mem = copy (replicate (unat (MemorySize s)) 0) fonts;
           shi = (0xEA0 :: uint16) + word_of_int (StackSize s);
           chi = (0xF00 :: uint16) + ucast (SWidth s) * ucast (SHeight s) div 8
       in
       if Realistic s \<and> \<not> (0xEA0 \<le> shi \<and> unat shi \<le> length mem) then None
       else if Realistic s \<and> \<not> (0xF00 \<le> chi \<and> unat chi \<le> length mem) then None
       else if \<not> Realistic s \<and> StackSize s < 0 then None
       else Some (Some (
         \<lparr> Memory = mem, V = replicate 16 0, I = 0,
           Stack = (if Realistic s then View 0xEA0 ((unat shi - 0xEA0) div 2)
                    else Own (replicate (nat (StackSize s)) 0)),
           SP = - 1, PC = 0, DT = 0, ST = 0, Keyboard = 0,
           Screen = (if Realistic s then View 0xF00 (unat chi - 0xF00)
                     else Own (replicate (unat ((ucast (SWidth s) :: uint16) * ucast (SHeight s) div 8)) 0)),
           Width = SWidth s, Height = SHeight s,
           TimerInterval = 1000000000 div 60, lastTimerUpdate = None, wii = None,
           pLegacy = LegacyMode s \<rparr>, [OnInit])))"

definition LoadRaw :: "Chip8 \<Rightarrow> byte list \<Rightarrow> Chip8 option" where
  "LoadRaw c program =
     (if int (length program) > int (length (Memory c)) - 0x200 then None
      else Some (c\<lparr>Memory := take 0x200 (Memory c) @ copy (drop 0x200 (Memory c)) program\<rparr>))"

section \<open>The interpreter\<close>

subsection \<open>Keys\<close>

definition KeyFlags :: "uint16 list" where
  "KeyFlags = [0x0001, 0x0002, 0x0004, 0x0008, 0x0010, 0x0020, 0x0040, 0x0080,
               0x0100, 0x0200, 0x0400, 0x0800, 0x1000, 0x2000, 0x4000, 0x8000]"

text \<open>The map \<open>KeyNumbers\<close>; a Go map read at a missing key gives the zero value.\<close>

definition KeyNumbers :: "uint16 \<rightharpoonup> byte" where
  "KeyNumbers = map_of [(0x0001, 0x00), (0x0002, 0x01), (0x0004, 0x02), (0x0008, 0x03),
                        (0x0010, 0x04), (0x0020, 0x05), (0x0040, 0x06), (0x0080, 0x07),
                        (0x0100, 0x08), (0x0200, 0x09), (0x0400, 0x0A), (0x0800, 0x0B),
                        (0x1000, 0x0C), (0x2000, 0x0D), (0x4000, 0x0E), (0x8000, 0x0F)]"

definition KeyNumbers_at :: "uint16 \<Rightarrow> byte" where
  "KeyNumbers_at k = (case KeyNumbers k of None \<Rightarrow> 0 | Some n \<Rightarrow> n)"

text \<open>
  The loop of \<open>Tick\<close> that looks for the first pressed key, for a register \<open>r < 16\<close>:
  \<open>mask\<close> is \<open>1 << k\<close>, it starts at \<open>0x0001\<close> and the loop leaves at \<open>0x8000\<close>.
\<close>

function first_key :: "nat \<Rightarrow> uint16 \<Rightarrow> nat \<Rightarrow> byte list \<Rightarrow> byte list" where
  "first_key k changed r vs =
     (let vs' = vs[r := KeyNumbers_at (changed AND push_bit k 1)] in
      if vs' ! r \<noteq> 0 then vs'
      else if 15 \<le> k then vs'
      else first_key (k + 1) changed r vs')"
  by pat_completeness auto
termination
  by (relation "measure (\<lambda>(k, changed, r, vs). 15 - k)") auto

declare first_key.simps [simp del]

subsection \<open>Decoding in \<open>Tick\<close>\<close>

text \<open>
  The types of \<open>Instruction\<close> in the disassembler; they also name the arms of the
  \<open>switch\<close> of \<open>Tick\<close>, after the mnemonic in the comment of each arm (\<open>RawData\<close>
  for the arms that return \<open>BadCodeErr\<close>).
\<close>

datatype kind =
    RawData | Sys | Jp | Call | Se | Sne | SeRegister | Ld | Add
  | LdRegister | Or | And | Xor | AddRegister | SubRegister | Shr | Subn | Shl
  | SneRegister | LdI | JpV0 | Rnd | Drw | Skp | Sknp
  | LdDelayTimer | LdKeyboard | LdSetDelayTimer | LdSetSoundTimer | AddI | LdFont
  | LdBcd | LdSetMemory | LdMemory

text \<open>Which arm of the \<open>switch\<close> of \<open>Tick\<close> the two bytes of an opcode select.\<close>

definition Tick_switch :: "byte \<Rightarrow> byte \<Rightarrow> kind" where
  "Tick_switch b0 b1 =
    (let g = b0 AND 0xF0 in
     if g = 0x00 then Sys
     else if g = 0x10 then Jp
     else if g = 0x20 then Call
     else if g = 0x30 then Se
     else if g = 0x40 then Sne
     else if g = 0x50 then SeRegister
     else if g = 0x60 then Ld
     else if g = 0x70 then Add
     else if g = 0x80 then
       (let n = b1 AND 0x0F in
        if n = 0x0 then LdRegister
        else if n = 0x1 then Or
        else if n = 0x2 then And
        else if n = 0x3 then Xor
        else if n = 0x4 then AddRegister
        else if n = 0x5 then SubRegister
        else if n = 0x6 then Shr
        else if n = 0x7 then Subn
        else if n = 0xE then Shl
        else RawData)
     else if g = 0x90 then SneRegister
     else if g = 0xA0 then LdI
     else if g = 0xB0 then JpV0
     else if g = 0xC0 then Rnd
     else if g = 0xD0 then Drw
     else if g = 0xE0 then
       (if b1 = 0x9E then Skp
        else if b1 = 0xA1 then Sknp
        else RawData)
     else if g = 0xF0 then
       (if b1 = 0x07 then LdDelayTimer
        else if b1 = 0x0A then LdKeyboard
        else if b1 = 0x15 then LdSetDelayTimer
        else if b1 = 0x18 then LdSetSoundTimer
        else if b1 = 0x1E then AddI
        else if b1 = 0x29 then LdFont
        else if b1 = 0x33 then LdBcd
        else if b1 = 0x55 then LdSetMemory
        else if b1 = 0x65 then LdMemory
        else RawData)
     else RawData)"

text \<open>
  \<open>opcode\<close> is the slice \<open>c.Memory[c.PC : c.PC+2]\<close>: its bytes are read from the
  memory as it is at the time of the read, at the address \<open>a\<close> of the fetch.
\<close>

definition opcode0 :: "Chip8 \<Rightarrow> nat \<Rightarrow> byte" where
  "opcode0 c a = Memory c ! a"

definition opcode1 :: "Chip8 \<Rightarrow> nat \<Rightarrow> byte" where
  "opcode1 c a = Memory c ! (a + 1)"

text \<open>\<open>opcode[0]&0x0F\<close>, \<open>opcode[1]&0xF0>>4\<close> and
  \<open>uint16(opcode[0]&0x0F)<<8 | uint16(opcode[1])\<close>.\<close>

definition opX :: "Chip8 \<Rightarrow> nat \<Rightarrow> nat" where
  "opX c a = unat (opcode0 c a AND 0x0F)"

definition opY :: "Chip8 \<Rightarrow> nat \<Rightarrow> nat" where
  "opY c a = unat (drop_bit 4 (opcode1 c a AND 0xF0))"

definition opNNN :: "Chip8 \<Rightarrow> nat \<Rightarrow> uint16" where
  "opNNN c a = push_bit 8 (ucast (opcode0 c a AND 0x0F)) OR ucast (opcode1 c a)"

definition setV :: "Chip8 \<Rightarrow> nat \<Rightarrow> byte \<Rightarrow> Chip8" where
  "setV c i v = c\<lparr>V := (V c)[i := v]\<rparr>"

definition skip :: "Chip8 \<Rightarrow> Chip8" where
  "skip c = c\<lparr>PC := PC c + 2\<rparr>"

definition ok :: "Chip8 \<Rightarrow> result" where
  "ok c = Return None c []"

definition fail :: "err \<Rightarrow> Chip8 \<Rightarrow> result" where
  "fail e c = Return (Some e) c []"

subsection \<open>The arms of the \<open>switch\<close>\<close>

text \<open>CLS: every byte of the screen buffer is set to zero, then the driver is called.\<close>

definition cls :: "Chip8 \<Rightarrow> result" where
  "cls c = Return None (fold (\<lambda>i c'. screen_set c' i 0) [0..<screen_len c] c) [Cls]"

text \<open>RET: the check, then the pop.\<close>

definition ret :: "Chip8 \<Rightarrow> result" where
  "ret c =
     (if SP c < 0 then fail StackOverflowErr c
      else if \<not> nat (SP c) < stack_len c then Panic
      else ok (c\<lparr>PC := stack_get c (nat (SP c)), SP := SP c - 1\<rparr>))"

text \<open>
  CALL: the check, the push of the return address, then the jump; the address of the
  jump is read from \<open>opcode\<close> after the push.
\<close>

definition call :: "nat \<Rightarrow> Chip8 \<Rightarrow> result" where
  "call a c =
     (if SP c \<ge> int (stack_len c) - 1 then fail StackOverflowErr c
      else
        let c1 = c\<lparr>SP := SP c + 1\<rparr> in
        if SP c1 < 0 then Panic
        else
          let c2 = stack_set c1 (nat (SP c1)) (PC c1) in
          ok (c2\<lparr>PC := opNNN c2 a\<rparr>))"

text \<open>ADD VX,VY: the 16-bit sum first, then the register, then the carry flag.\<close>

definition add_register :: "nat \<Rightarrow> nat \<Rightarrow> Chip8 \<Rightarrow> Chip8" where
  "add_register x y c =
     (let res = (ucast (V c ! x) :: uint16) + ucast (V c ! y);
          c1 = setV c x (ucast res)
      in if res AND 0xFF00 \<noteq> 0 then setV c1 0xF 1 else setV c1 0xF 0)"

text \<open>SUB VX,VY: the flag is written first, the difference after it.\<close>

definition sub_register :: "nat \<Rightarrow> nat \<Rightarrow> Chip8 \<Rightarrow> Chip8" where
  "sub_register x y c =
     (let c1 = (if V c ! x \<ge> V c ! y then setV c 0xF 1 else setV c 0xF 0)
      in setV c1 x (V c1 ! x - V c1 ! y))"

text \<open>SUBN VX,VY.\<close>

definition subn :: "nat \<Rightarrow> nat \<Rightarrow> Chip8 \<Rightarrow> Chip8" where
  "subn x y c =
     (let c1 = (if V c ! x > V c ! y then setV c 0xF 0 else setV c 0xF 1)
      in setV c1 x (V c1 ! y - V c1 ! x))"

text \<open>The maps \<open>shr\<close> and \<open>shl\<close>, at the key \<open>pLegacy\<close>.\<close>

definition shr :: "nat \<Rightarrow> nat \<Rightarrow> Chip8 \<Rightarrow> Chip8" where
  "shr x y c =
     (if pLegacy c then
        (let c1 = setV c 0xF (V c ! y AND 0x01) in setV c1 x (drop_bit 1 (V c1 ! y)))
      else
        (let c1 = setV c 0xF (V c ! x AND 0x01) in setV c1 x (drop_bit 1 (V c1 ! x))))"

definition shl :: "nat \<Rightarrow> nat \<Rightarrow> Chip8 \<Rightarrow> Chip8" where
  "shl x y c =
     (if pLegacy c then
        (let c1 = setV c 0xF (V c ! y AND 0x80) in setV c1 x (push_bit 1 (V c1 ! y)))
      else
        (let c1 = setV c 0xF (V c ! x AND 0x80) in setV c1 x (push_bit 1 (V c1 ! x))))"

text \<open>The maps \<open>ldMemory\<close> and \<open>ldSetMemory\<close>: the loop \<open>for i := 0; i <= x; i++\<close>.\<close>

definition ldMemory :: "nat \<Rightarrow> Chip8 \<Rightarrow> Chip8" where
  "ldMemory x c =
     (if pLegacy c then
        fold (\<lambda>i c'. (setV c' i (Memory c' ! unat (I c')))\<lparr>I := I c' + 1\<rparr>) [0..<x + 1] c
      else
        fold (\<lambda>i c'. setV c' i (Memory c' ! unat (I c' + of_nat i))) [0..<x + 1] c)"

definition ldSetMemory :: "nat \<Rightarrow> Chip8 \<Rightarrow> Chip8" where
  "ldSetMemory x c =
     (if pLegacy c then
        fold (\<lambda>i c'. c'\<lparr>Memory := (Memory c')[unat (I c') := V c' ! i], I := I c' + 1\<rparr>)
          [0..<x + 1] c
      else
        fold (\<lambda>i c'. c'\<lparr>Memory := (Memory c')[unat (I c' + of_nat i) := V c' ! i]\<rparr>)
          [0..<x + 1] c)"

text \<open>FX55 and FX65: the overflow check, the bounds check, then the copy.\<close>

definition ld_set_memory :: "nat \<Rightarrow> Chip8 \<Rightarrow> result" where
  "ld_set_memory a c =
     (let x = opcode0 c a AND 0x0F in
      if 0xFFFF - I c < ucast x then fail OverflowErr c
      else if int (unat (I c)) + int (unat x) \<ge> int (length (Memory c)) \<or> I c < 0x200
        then fail AccessErr c
      else ok (ldSetMemory (unat x) c))"

definition ld_memory :: "nat \<Rightarrow> Chip8 \<Rightarrow> result" where
  "ld_memory a c =
     (let x = opcode0 c a AND 0x0F in
      if 0xFFFF - I c < ucast x then fail OverflowErr c
      else if int (unat (I c)) + int (unat x) \<ge> int (length (Memory c)) \<or> I c < 0x200
        then fail AccessErr c
      else ok (ldMemory (unat x) c))"

text \<open>FX33.\<close>

definition ld_bcd :: "nat \<Rightarrow> Chip8 \<Rightarrow> result" where
  "ld_bcd a c =
     (if int (unat (I c)) + 2 \<ge> int (length (Memory c)) \<or> I c < 0x200 then fail AccessErr c
      else
        let v = V c ! opX c a;
            m1 = (Memory c)[unat (I c + 2) := v mod 10];
            v' = v div 10;
            m2 = m1[unat (I c + 1) := v' mod 10];
            m3 = m2[unat (I c) := v' div 10]
        in ok (c\<lparr>Memory := m3\<rparr>))"

text \<open>EX9E and EXA1: \<open>KeyFlags\<close> has sixteen elements and is indexed by \<open>V[X]\<close>.\<close>

definition skp :: "nat \<Rightarrow> Chip8 \<Rightarrow> result" where
  "skp a c =
     (let k = unat (V c ! opX c a) in
      if \<not> k < length KeyFlags then Panic
      else if Keyboard c AND KeyFlags ! k \<noteq> 0 then ok (skip c) else ok c)"

definition sknp :: "nat \<Rightarrow> Chip8 \<Rightarrow> result" where
  "sknp a c =
     (let k = unat (V c ! opX c a) in
      if \<not> k < length KeyFlags then Panic
      else if Keyboard c AND KeyFlags ! k = 0 then ok (skip c) else ok c)"

subsection \<open>DRW VX,VY,N\<close>

text \<open>
  The loop that sets \<open>V[0xF]\<close> on a collision: \<open>mask\<close> is \<open>1 << k\<close>, it starts at
  \<open>0x01\<close>, the loop runs while \<open>V[0xF] == 0\<close> and leaves at \<open>0x80\<close>.
\<close>

function collision ::
  "nat \<Rightarrow> byte \<Rightarrow> byte \<Rightarrow> nat \<Rightarrow> nat \<Rightarrow> byte \<Rightarrow> byte \<Rightarrow> byte \<Rightarrow> Chip8 \<Rightarrow> Chip8" where
  "collision k oldval1 oldval2 index nextIndex bitoff mask1 mask2 c =
     (if \<not> V c ! 0xF = 0 then c
      else
        let mask = (push_bit k 1 :: byte) in
        if oldval1 AND mask > screen_get c index AND mask1 AND mask then setV c 0xF 1
        else if bitoff \<noteq> 0 \<and> oldval2 AND mask > screen_get c nextIndex AND mask2 AND mask
          then setV c 0xF 1
        else if 7 \<le> k then c
        else collision (k + 1) oldval1 oldval2 index nextIndex bitoff mask1 mask2 c)"
  by pat_completeness auto
termination
  by (relation "measure (\<lambda>(k, _). 7 - k)") auto

declare collision.simps [simp del]

text \<open>
  One turn of the loop over the rows, for the row \<open>off\<close> of the sprite (the byte of
  memory at \<open>I + off\<close>, read when it is used) at \<open>x\<close>, \<open>y\<close>; \<open>None\<close> is a panic
  (a division by a zero \<open>byteWidth\<close>, a screen index out of range).
\<close>

definition draw_row :: "nat \<Rightarrow> byte \<Rightarrow> byte \<Rightarrow> Chip8 \<Rightarrow> Chip8 option" where
  "draw_row off x y c =
     (let byteWidth = (ucast (Width c) :: uint16) div 8;
          byteColumn = (ucast y :: uint16) * byteWidth;
          index = unat (byteColumn + ucast x div 8)
      in
      if byteWidth = 0 then None
      else
        let nextIndex = unat (byteColumn + (ucast x div 8 + 1) mod byteWidth);
            bitoff = x mod 8;
            mask1 = drop_bit (unat bitoff) (0xFF :: byte);
            mask2 = NOT mask1
        in
        if \<not> index < screen_len c then None
        else
          let oldval1 = screen_get c index AND mask1;
              c1 = screen_set c index
                     (screen_get c index XOR drop_bit (unat bitoff) (Memory c ! (unat (I c) + off)))
          in
          if bitoff \<noteq> 0 then
            (if \<not> nextIndex < screen_len c1 then None
             else
               let oldval2 = screen_get c1 nextIndex AND mask2;
                   c2 = screen_set c1 nextIndex
                          (screen_get c1 nextIndex XOR
                           push_bit (unat (8 - bitoff)) (Memory c1 ! (unat (I c1) + off)))
               in Some (collision 0 oldval1 oldval2 index nextIndex bitoff mask1 mask2 c2))
          else Some (collision 0 oldval1 0 index nextIndex bitoff mask1 mask2 c1))"

text \<open>The loop \<open>for off := 0; off < rows; off++\<close>, with \<open>n\<close> rows left to draw.\<close>

fun draw_rows :: "nat \<Rightarrow> nat \<Rightarrow> byte \<Rightarrow> byte \<Rightarrow> Chip8 \<Rightarrow> Chip8 option" where
  "draw_rows 0 off x y c = Some c"
| "draw_rows (Suc n) off x y c =
     (case draw_row off x y c of
        None \<Rightarrow> None
      | Some c' \<Rightarrow> draw_rows n (off + 1) x ((y + 1) mod Height c') c')"

text \<open>The arm of DXYN, for the registers \<open>X\<close>, \<open>Y\<close> and the row count of the opcode.\<close>

definition drw :: "nat \<Rightarrow> nat \<Rightarrow> byte \<Rightarrow> Chip8 \<Rightarrow> result" where
  "drw X Y rows c =
     (if Width c = 0 \<or> Height c = 0 then Panic
      else
        let x = V c ! X mod Width c;
            y = V c ! Y mod Height c
        in
        if 0xFFFF - I c < ucast rows then fail OverflowErr c
        else if int (unat (I c)) + int (unat rows) - 1 \<ge> int (length (Memory c))
          then fail AccessErr c
        else
          (case draw_rows (unat rows) 0 x y (setV c 0xF 0) of
             None \<Rightarrow> Panic
           | Some c' \<Rightarrow> Return None c' [UpdateScreen]))"

subsection \<open>Executing one opcode\<close>

text \<open>
  The body of each arm; \<open>rnd\<close> is the value of \<open>rand.Uint32()\<close> and \<open>a\<close> the address
  the opcode was fetched from.  \<open>PC\<close> has been advanced already.
\<close>

fun run :: "kind \<Rightarrow> 32 word \<Rightarrow> nat \<Rightarrow> Chip8 \<Rightarrow> result" where
  "run Sys rnd a c =
     (if opNNN c a = 0x0E0 then cls c
      else if opNNN c a = 0x0EE then ret c
      else ok c)"
| "run Jp rnd a c = ok (c\<lparr>PC := opNNN c a\<rparr>)"
| "run Call rnd a c = call a c"
| "run Se rnd a c = (if V c ! opX c a = opcode1 c a then ok (skip c) else ok c)"
| "run Sne rnd a c = (if V c ! opX c a \<noteq> opcode1 c a then ok (skip c) else ok c)"
| "run SeRegister rnd a c = (if V c ! opX c a = V c ! opY c a then ok (skip c) else ok c)"
| "run Ld rnd a c = ok (setV c (opX c a) (opcode1 c a))"
| "run Add rnd a c = ok (setV c (opX c a) (V c ! opX c a + opcode1 c a))"
| "run LdRegister rnd a c = ok (setV c (opX c a) (V c ! opY c a))"
| "run Or rnd a c = ok (setV c (opX c a) (V c ! opX c a OR V c ! opY c a))"
| "run And rnd a c = ok (setV c (opX c a) (V c ! opX c a AND V c ! opY c a))"
| "run Xor rnd a c = ok (setV c (opX c a) (V c ! opX c a XOR V c ! opY c a))"
| "run AddRegister rnd a c = ok (add_register (opX c a) (opY c a) c)"
| "run SubRegister rnd a c = ok (sub_register (opX c a) (opY c a) c)"
| "run Shr rnd a c = ok (shr (opX c a) (opY c a) c)"
| "run Subn rnd a c = ok (subn (opX c a) (opY c a) c)"
| "run Shl rnd a c = ok (shl (opX c a) (opY c a) c)"
| "run SneRegister rnd a c = (if V c ! opX c a \<noteq> V c ! opY c a then ok (skip c) else ok c)"
| "run LdI rnd a c = ok (c\<lparr>I := opNNN c a\<rparr>)"
| "run JpV0 rnd a c = ok (c\<lparr>PC := opNNN c a + ucast (V c ! 0) - 2\<rparr>)"
| "run Rnd rnd a c = ok (setV c (opX c a) (ucast rnd AND opcode1 c a))"
| "run Drw rnd a c = drw (opX c a) (opY c a) (opcode1 c a AND 0x0F) c"
| "run Skp rnd a c = skp a c"
| "run Sknp rnd a c = sknp a c"
| "run LdDelayTimer rnd a c = ok (setV c (opX c a) (DT c))"
| "run LdKeyboard rnd a c = ok (c\<lparr>wii := Some (opcode0 c a AND 0x0F, NOT (Keyboard c))\<rparr>)"
| "run LdSetDelayTimer rnd a c = ok (c\<lparr>DT := V c ! opX c a\<rparr>)"
| "run LdSetSoundTimer rnd a c = ok (c\<lparr>ST := V c ! opX c a\<rparr>)"
| "run AddI rnd a c = ok (c\<lparr>I := I c + ucast (V c ! opX c a)\<rparr>)"
| "run LdFont rnd a c = ok (c\<lparr>I := ucast (V c ! opX c a) * 5\<rparr>)"
| "run LdBcd rnd a c = ld_bcd a c"
| "run LdSetMemory rnd a c = ld_set_memory a c"
| "run LdMemory rnd a c = ld_memory a c"
| "run RawData rnd a c = fail BadCodeErr c"

subsection \<open>Timers\<close>

text \<open>
  The loop \<open>for now.Sub(c.lastTimerUpdate) >= c.TimerInterval\<close>; \<open>t\<close> is
  \<open>c.lastTimerUpdate\<close>, written back when the loop leaves, and \<open>evs\<close> the calls of the
  driver so far.  With an interval that is not positive the condition, once true, stays
  true: \<open>None\<close>.
\<close>

function timers :: "int \<Rightarrow> int \<Rightarrow> Chip8 \<Rightarrow> event list \<Rightarrow> (Chip8 \<times> event list) option" where
  "timers now t c evs =
     (if now - t \<ge> TimerInterval c then
        (if TimerInterval c \<le> 0 then None
         else
           let c1 = (if DT c > 0 then c\<lparr>DT := DT c - 1\<rparr> else c);
               c2 = (if ST c1 > 0 then c1\<lparr>ST := ST c1 - 1\<rparr> else c1);
               evs' = (if ST c1 > 0 then evs @ [Beep] else evs)
           in timers now (t + TimerInterval c2) c2 evs')
      else Some (c\<lparr>lastTimerUpdate := Some t\<rparr>, evs))"
  by pat_completeness auto
termination
  by (relation "measure (\<lambda>(now, t, c, evs). nat (now - t))")
     (auto simp: Let_def)

declare timers.simps [simp del]

subsection \<open>\<open>Tick\<close>\<close>

text \<open>
  From the fetch on: the slice expression \<open>c.Memory[c.PC : c.PC+2]\<close> (in \<open>uint16\<close>),
  \<open>c.PC += 2\<close>, the \<open>switch\<close>, and, where no arm has returned an error, the timers
  at the time \<open>now\<close>.
\<close>

definition fetch_exec :: "int \<Rightarrow> 32 word \<Rightarrow> Chip8 \<Rightarrow> result" where
  "fetch_exec now rnd c =
     (if \<not> (unat (PC c) \<le> unat (PC c + 2) \<and> unat (PC c + 2) \<le> length (Memory c)) then Panic
      else
        let a = unat (PC c);
            c1 = c\<lparr>PC := PC c + 2\<rparr>
        in
        case run (Tick_switch (opcode0 c1 a) (opcode1 c1 a)) rnd a c1 of
          Panic \<Rightarrow> Panic
        | Hang \<Rightarrow> Hang
        | Return (Some e) c2 evs \<Rightarrow> Return (Some e) c2 (OnUpdate # evs)
        | Return None c2 evs \<Rightarrow>
            (let t = (case lastTimerUpdate c2 of None \<Rightarrow> now | Some t \<Rightarrow> t) in
             case timers now t c2 (OnUpdate # evs) of
               None \<Rightarrow> Hang
             | Some (c3, evs') \<Rightarrow> Return None c3 evs'))"

text \<open>
  \<open>Tick\<close>, with the clock and the random source as arguments.  The driver's
  \<open>OnUpdate\<close> is recorded as a call; the keyboard of \<open>c\<close> is the one it leaves.
\<close>

definition Tick :: "int \<Rightarrow> 32 word \<Rightarrow> Chip8 \<Rightarrow> result" where
  "Tick now rnd c =
     (case wii c of
        None \<Rightarrow> fetch_exec now rnd c
      | Some (register, zeroBits) \<Rightarrow>
          (let changed = Keyboard c AND zeroBits in
           if changed = 0 then Return None c [OnUpdate]
           else if \<not> unat register < length (V c) then Panic
           else
             fetch_exec now rnd
               (c\<lparr>V := first_key 0 changed (unat register) (V c), wii := None\<rparr>)))"

section \<open>The disassembler\<close>

text \<open>
  An \<open>Instruction\<close> made by \<open>DisassembleSimple\<close>: its dynamic type, the bytes \<open>b\<close> of
  the embedded \<open>RawData\<close> and the string \<open>s\<close> that \<open>init\<close> leaves there.
\<close>

record Instruction =
  ikind :: kind
  ibytes :: "byte list"
  itext :: string

definition Opcode :: "Instruction \<Rightarrow> uint16" where
  "Opcode i =
     (let res = (ucast (ibytes i ! 0) :: uint16) in
      if length (ibytes i) = 2 then push_bit 8 res OR ucast (ibytes i ! 1) else res)"

definition Size :: "Instruction \<Rightarrow> int" where
  "Size i = int (length (ibytes i))"

definition isPrintableASCII :: "byte list \<Rightarrow> bool" where
  "isPrintableASCII bs = list_all (\<lambda>c. \<not> c > 126 \<and> \<not> c < 32) bs"

definition ASCII :: "Instruction \<Rightarrow> string" where
  "ASCII i = (if isPrintableASCII (ibytes i) then map (\<lambda>c. char_of (unat c)) (ibytes i) else [])"

definition Description :: "Instruction \<Rightarrow> string" where
  "Description i = (case ikind i of
      RawData \<Rightarrow> ''Unknown / Raw Data''
    | Sys \<Rightarrow> ''0NNN: Calls RCA 1802 program at address NNN.''
    | Jp \<Rightarrow> ''1NNN: Jumps to address NNN.''
    | Call \<Rightarrow> ''2NNN: Calls subroutine at NNN.''
    | Se \<Rightarrow> ''3XNN: Skips the next instruction if VX equals NN.''
    | Sne \<Rightarrow> ''4XNN: Skips the next instruction if VX doesn't equal NN.''
    | SeRegister \<Rightarrow> ''5XY0: Skips the next instruction if VX equals VY.''
    | Ld \<Rightarrow> ''6XNN: Sets VX to NN.''
    | Add \<Rightarrow> ''7XNN: Adds NN to VX.''
    | LdRegister \<Rightarrow> ''8XY0: Sets VX to the value of VY.''
    | Or \<Rightarrow> ''8XY1: Sets VX to VX | VY (bit-wise OR).''
    | And \<Rightarrow> ''8XY2: Sets VX to VX & VY (bit-wise AND).''
    | Xor \<Rightarrow> ''8XY3: Sets VX to VX ^ VY (bit-wise XOR).''
    | AddRegister \<Rightarrow> ''8XY4: VX += VY. VF = 1 when there's a carry, 0 when there isn't.''
    | SubRegister \<Rightarrow> ''8XY5: VX -= VY. VF = 0 when there's a borrow, 1 when there isn't.''
    | Shr \<Rightarrow> ''8XY6: VX = VY >> 1. VF = least significant bit prior to the shift.''
    | Subn \<Rightarrow> ''8XY7: VX = VY - VX. VF = 0 when there's a borrow, 1 when there isn't.''
    | Shl \<Rightarrow> ''8XYE: VX = VY << 1. VF = most significant bit prior to the shift.''
    | SneRegister \<Rightarrow> ''9XY0: Skips the next instruction if VX doesn't equal VY.''
    | LdI \<Rightarrow> ''ANNN: Sets I to the address NNN.''
    | JpV0 \<Rightarrow> ''BNNN: Jumps to the address NNN plus V0.''
    | Rnd \<Rightarrow> ''CXNN: Sets VX to a random number (0-FF) & NN (bit-wise AND).''
    | Drw \<Rightarrow> ''DXYN: Draws N rows of sprite pointed by I at VX,VY.''
    | Skp \<Rightarrow> ''EX9E: Skips the next instruction if the key stored in VX is pressed.''
    | Sknp \<Rightarrow> ''EXA1: Skips the next instruction if the key stored in VX isn't pressed.''
    | LdDelayTimer \<Rightarrow> ''FX07: Sets VX to the value of the delay timer.''
    | LdKeyboard \<Rightarrow> ''FX0A: A key press is awaited, and then key number is stored in VX.''
    | LdSetDelayTimer \<Rightarrow> ''FX15: Sets the delay timer to VX.''
    | LdSetSoundTimer \<Rightarrow> ''FX18: Sets the sound timer to VX.''
    | AddI \<Rightarrow> ''FX1E: Adds VX to I.''
    | LdFont \<Rightarrow> ''FX29: Sets I to the location of the sprite for the character in VX.''
    | LdBcd \<Rightarrow> ''FX33: Store BCD representation of VX in memory at I, I+1, and I+2.''
    | LdSetMemory \<Rightarrow> ''FX55: Stores V0 to VX in memory starting at address I.''
    | LdMemory \<Rightarrow> ''FX65: Fills V0 to VX with values from memory starting at address I.'')"

text \<open>Which type the \<open>switch\<close> of \<open>DisassembleSimple\<close> gives the two bytes of an opcode;
  \<open>in\<close> starts as the \<open>RawData\<close> and stays so where no \<open>case\<close> matches.\<close>

definition Disassemble_switch :: "byte \<Rightarrow> byte \<Rightarrow> kind" where
  "Disassemble_switch b0 b1 =
    (let g = b0 AND 0xF0 in
     if g = 0x00 then Sys
     else if g = 0x10 then Jp
     else if g = 0x20 then Call
     else if g = 0x30 then Se
     else if g = 0x40 then Sne
     else if g = 0x50 then SeRegister
     else if g = 0x60 then Ld
     else if g = 0x70 then Add
     else if g = 0x80 then
       (let n = b1 AND 0x0F in
        if n = 0x0 then LdRegister
        else if n = 0x1 then Or
        else if n = 0x2 then And
        else if n = 0x3 then Xor
        else if n = 0x4 then AddRegister
        else if n = 0x5 then SubRegister
        else if n = 0x6 then Shr
        else if n = 0x7 then Subn
        else if n = 0xE then Shl
        else RawData)
     else if g = 0x90 then Sne
     else if g = 0xA0 then LdI
     else if g = 0xB0 then JpV0
     else if g = 0xC0 then Rnd
     else if g = 0xD0 then Drw
     else if g = 0xE0 then
       (if b1 = 0x9E then Skp
        else if b1 = 0xA1 then Sknp
        else RawData)
     else if g = 0xF0 then
       (if b1 = 0x07 then LdDelayTimer
        else if b1 = 0x0A then LdKeyboard
        else if b1 = 0x15 then LdSetDelayTimer
        else if b1 = 0x18 then LdSetSoundTimer
        else if b1 = 0x1E then AddI
        else if b1 = 0x29 then LdFont
        else if b1 = 0x33 then LdBcd
        else if b1 = 0x55 then LdSetMemory
        else if b1 = 0x65 then LdMemory
        else RawData)
     else RawData)"

text \<open>\<open>fmt\<close>'s verb \<open>%X\<close> with a minimum width and zero padding, as \<open>%03X\<close>.\<close>

definition hexdigit :: "nat \<Rightarrow> char" where
  "hexdigit n = ''0123456789ABCDEF'' ! n"

function to_hex :: "nat \<Rightarrow> string" where
  "to_hex n = (if n < 16 then [hexdigit n] else to_hex (n div 16) @ [hexdigit (n mod 16)])"
  by pat_completeness auto
termination
  by (relation "measure id") auto

declare to_hex.simps [simp del]

definition hexw :: "nat \<Rightarrow> nat \<Rightarrow> string" where
  "hexw w n = replicate (w - length (to_hex n)) CHR ''0'' @ to_hex n"

text \<open>
  The string \<open>init\<close> stores in \<open>s\<close>.  The method \<open>init\<close> of \<open>RawData\<close> has a value
  receiver, it writes \<open>s\<close> in a copy: the \<open>s\<close> of a \<open>RawData\<close> stays empty.  The
  other types hold a pointer to their \<open>RawData\<close>.
\<close>

definition init_text :: "kind \<Rightarrow> byte \<Rightarrow> byte \<Rightarrow> string" where
  "init_text k b0 b1 =
    (let opc = unat (push_bit 8 (ucast b0 :: uint16) OR ucast b1);
         nnn = unat ((push_bit 8 (ucast b0 :: uint16) OR ucast b1) AND 0x0FFF);
         rx = hexw 1 (unat (b0 AND 0x0F));
         ry = hexw 1 (unat (drop_bit 4 (b1 AND 0xF0)));
         nn = hexw 2 (unat b1)
     in case k of
      RawData \<Rightarrow> []
    | Sys \<Rightarrow> ''SYS '' @ hexw 3 opc @
        (if nnn = 0x0E0 then '' (CLS)'' else if nnn = 0x0EE then '' (RET)'' else [])
    | Jp \<Rightarrow> ''JP '' @ hexw 3 nnn
    | Call \<Rightarrow> ''CALL '' @ hexw 3 nnn
    | Se \<Rightarrow> ''SE V'' @ rx @ '','' @ nn
    | Sne \<Rightarrow> ''SNE V'' @ rx @ '','' @ nn
    | SeRegister \<Rightarrow> ''SE V'' @ rx @ '',V'' @ ry
    | Ld \<Rightarrow> ''LD V'' @ rx @ '','' @ nn
    | Add \<Rightarrow> ''ADD V'' @ rx @ '','' @ nn
    | LdRegister \<Rightarrow> ''LD V'' @ rx @ '',V'' @ ry
    | Or \<Rightarrow> ''OR V'' @ rx @ '',V'' @ ry
    | And \<Rightarrow> ''AND V'' @ rx @ '',V'' @ ry
    | Xor \<Rightarrow> ''XOR V'' @ rx @ '',V'' @ ry
    | AddRegister \<Rightarrow> ''ADD V'' @ rx @ '',V'' @ ry
    | SubRegister \<Rightarrow> ''SUB V'' @ rx @ '',V'' @ ry
    | Shr \<Rightarrow> ''SHR V'' @ rx @ '',V'' @ ry
    | Subn \<Rightarrow> ''SUBN V'' @ rx @ '',V'' @ ry
    | Shl \<Rightarrow> ''SHL V'' @ rx @ '',V'' @ ry
    | SneRegister \<Rightarrow> ''SNE V'' @ rx @ '',V'' @ ry
    | LdI \<Rightarrow> ''LD I,'' @ hexw 3 nnn
    | JpV0 \<Rightarrow> ''JP V0,'' @ hexw 3 nnn
    | Rnd \<Rightarrow> ''RND V'' @ rx @ '','' @ nn
    | Drw \<Rightarrow> ''DRW V'' @ rx @ '',V'' @ ry @ '','' @ hexw 1 (unat (b1 AND 0x0F))
    | Skp \<Rightarrow> ''SKP V'' @ rx
    | Sknp \<Rightarrow> ''SKNP V'' @ rx
    | LdDelayTimer \<Rightarrow> ''LD V'' @ rx @ '', DT''
    | LdKeyboard \<Rightarrow> ''LD V'' @ rx @ '', K''
    | LdSetDelayTimer \<Rightarrow> ''LD DT,V'' @ rx
    | LdSetSoundTimer \<Rightarrow> ''LD ST,V'' @ rx
    | AddI \<Rightarrow> ''ADD I,V'' @ rx
    | LdFont \<Rightarrow> ''LD I,CHAR V'' @ rx
    | LdBcd \<Rightarrow> ''LD [I],BCD V'' @ rx
    | LdSetMemory \<Rightarrow> ''LD [I],V'' @ rx
    | LdMemory \<Rightarrow> ''LD V'' @ rx @ '',[I]'')"

text \<open>
  The loop \<open>for i := 0; i < len(b); i += 2\<close> over a buffer of even length: one
  \<open>Instruction\<close> for the two bytes \<open>b[i : i+2]\<close>, appended to \<open>res\<close>.
\<close>

fun disassemble_loop :: "byte list \<Rightarrow> Instruction list" where
  "disassemble_loop (b0 # b1 # bs) =
     \<lparr> ikind = Disassemble_switch b0 b1, ibytes = [b0, b1],
       itext = init_text (Disassemble_switch b0 b1) b0 b1 \<rparr> # disassemble_loop bs"
| "disassemble_loop bs = []"

text \<open>\<open>DisassembleSimple\<close>: \<open>None\<close> is the error for a buffer of odd length, returned
  with a nil \<open>res\<close>.\<close>

definition DisassembleSimple :: "byte list \<Rightarrow> Instruction list option" where
  "DisassembleSimple b =
     (if length b mod 2 \<noteq> 0 then None else Some (disassemble_loop b))"

section \<open>Loading a program\<close>

text \<open>
  \<open>Load\<close>, for a file that opens and holds the bytes \<open>program\<close>.  The first
  component is the error returned: the \<open>OutOfMemoryErr\<close>, before anything is written, or
  the \<open>io.EOF\<close> that \<open>f.Read\<close> gives for an empty file and a buffer
  \<open>c.Memory[0x200:]\<close> that is not empty.  The bytes go to \<open>c.Memory[0x200:]\<close> and
  \<open>PC\<close> is set to \<open>0x200\<close>, also when \<open>f.Read\<close> has given the error.
\<close>

datatype load_error = OutOfMemoryErr | EOF

definition Load :: "Chip8 \<Rightarrow> byte list \<Rightarrow> load_error option \<times> Chip8" where
  "Load c program =
     (if int (length program) > int (length (Memory c)) - 0x200 then (Some OutOfMemoryErr, c)
      else
        (if program = [] \<and> 0x200 < length (Memory c) then Some EOF else None,
         c\<lparr>Memory := take 0x200 (Memory c) @ copy (drop 0x200 (Memory c)) program,
           PC := 0x200\<rparr>))"

text \<open>
  The machine of \<open>runEmulator\<close>: \<open>New\<close> with nil settings, then \<open>Load\<close>;
  \<open>None\<close> where \<open>runEmulator\<close> returns the error of either.
\<close>

definition default_machine :: "byte list \<Rightarrow> Chip8 option" where
  "default_machine program =
     (case New DefaultSettings of
        Some (Some (c, evs)) \<Rightarrow>
          (case Load c program of (None, c') \<Rightarrow> Some c' | (Some e, c') \<Rightarrow> None)
      | _ \<Rightarrow> None)"

text \<open>
  The loop of \<open>Run\<close>, \<open>for err == nil { err = c.Tick() }\<close>, for as many cycles as
  the list gives clock and random values: the results of the calls of \<open>Tick\<close>, up to
  the first that does not return nil.
\<close>

fun Run :: "(int \<times> 32 word) list \<Rightarrow> Chip8 \<Rightarrow> result list" where
  "Run [] c = []"
| "Run ((now, rnd) # ins) c =
     (case Tick now rnd c of
        Return None c' evs \<Rightarrow> Return None c' evs # Run ins c'
      | r \<Rightarrow> [r])"

section \<open>Conditions used in the statements\<close>

text \<open>
  What \<open>New\<close> establishes and no cycle changes: \<open>V\<close> is an array of 16 registers,
  the memory has been made with a \<open>uint16\<close> size, the timer interval is positive, the
  screen has \<open>Width * Height / 8\<close> bytes for a width that is a multiple of 8 and a
  height that is not zero, the slices of realistic mode (of one-byte and of two-byte
  elements) end inside the memory, the stack pointer is between \<open>-1\<close> and the last
  slot, and a pending wait names a register.
\<close>

fun slice_end :: "'a slice \<Rightarrow> nat \<Rightarrow> nat" where
  "slice_end (Own xs) w = 0"
| "slice_end (View off n) w = off + w * n"

definition well_formed :: "Chip8 \<Rightarrow> bool" where
  "well_formed c \<longleftrightarrow>
     length (V c) = 16 \<and> length (Memory c) \<le> 65535 \<and> 0 < TimerInterval c \<and>
     8 dvd unat (Width c) \<and> 8 \<le> unat (Width c) \<and> 0 < unat (Height c) \<and>
     screen_len c = unat (Width c) * unat (Height c) div 8 \<and>
     slice_end (Screen c) 1 \<le> length (Memory c) \<and>
     slice_end (Stack c) 2 \<le> length (Memory c) \<and>
     - 1 \<le> SP c \<and> SP c < int (stack_len c) \<and>
     (case wii c of None \<Rightarrow> True | Some (register, zeroBits) \<Rightarrow> unat register < 16)"

text \<open>
  The state in which \<open>Tick\<close> reaches the fetch: \<open>None\<close> where it returns before, on a
  pending wait with no new key.
\<close>

definition at_fetch :: "Chip8 \<Rightarrow> Chip8 option" where
  "at_fetch c =
     (case wii c of
        None \<Rightarrow> Some c
      | Some (register, zeroBits) \<Rightarrow>
          if Keyboard c AND zeroBits = 0 then None
          else Some (c\<lparr>V := first_key 0 (Keyboard c AND zeroBits) (unat register) (V c),
                      wii := None\<rparr>))"

text \<open>The opcode at \<open>PC\<close> is EX9E or EXA1 and \<open>V[X]\<close> is not an index of \<open>KeyFlags\<close>.\<close>

definition key_out_of_range :: "Chip8 \<Rightarrow> bool" where
  "key_out_of_range c =
     (let a = unat (PC c);
          k = Tick_switch (Memory c ! a) (Memory c ! (a + 1))
      in (k = Skp \<or> k = Sknp) \<and> 16 \<le> unat (V c ! unat (Memory c ! a AND 0x0F)))"

section \<open>A sprite as a list of XOR operations\<close>

text \<open>
  For the statements about DRW: the screen as the list of its bytes, whichever array
  holds them, and the effect of a draw as a list of operations \<open>(i, m)\<close>, each of
  which XORs the byte \<open>m\<close> into the screen byte \<open>i\<close>.
\<close>

definition pixels :: "Chip8 \<Rightarrow> byte list" where
  "pixels c = (case Screen c of Own xs \<Rightarrow> xs | View off n \<Rightarrow> take n (drop off (Memory c)))"

definition xor_at :: "nat \<Rightarrow> byte \<Rightarrow> byte list \<Rightarrow> byte list" where
  "xor_at i m s = s[i := s ! i XOR m]"

text \<open>The screen after the operations, and whether one of them turns a set pixel off.\<close>

fun paint :: "(nat \<times> byte) list \<Rightarrow> byte list \<Rightarrow> byte list" where
  "paint [] s = s"
| "paint ((i, m) # ops) s = paint ops (xor_at i m s)"

fun clears :: "(nat \<times> byte) list \<Rightarrow> byte list \<Rightarrow> bool" where
  "clears [] s = False"
| "clears ((i, m) # ops) s = (s ! i AND m \<noteq> 0 \<or> clears ops (xor_at i m s))"

text \<open>
  The operations of one row \<open>b\<close> of a sprite at \<open>x\<close>, \<open>y\<close> on a screen \<open>W\<close> pixels wide
  (the part of the row in the byte \<open>index\<close>, then the part in \<open>nextIndex\<close>), and of the
  rows of a sprite, one below the other modulo \<open>H\<close>.
\<close>

definition row_ops :: "byte \<Rightarrow> byte \<Rightarrow> byte \<Rightarrow> byte \<Rightarrow> (nat \<times> byte) list" where
  "row_ops W x y b =
     (let bw = unat W div 8;
          bitoff = unat (x mod 8)
      in (unat y * bw + unat x div 8, drop_bit bitoff b) #
         (if bitoff \<noteq> 0 then [(unat y * bw + (unat x div 8 + 1) mod bw, push_bit (8 - bitoff) b)]
          else []))"

fun sprite_ops :: "byte \<Rightarrow> byte \<Rightarrow> byte \<Rightarrow> byte \<Rightarrow> byte list \<Rightarrow> (nat \<times> byte) list" where
  "sprite_ops W H x y [] = []"
| "sprite_ops W H x y (b # bs) = row_ops W x y b @ sprite_ops W H x ((y + 1) mod H) bs"

text \<open>The rows of the sprite of a DRW with \<open>n\<close> rows: the memory from \<open>I\<close>.\<close>

definition sprite :: "Chip8 \<Rightarrow> nat \<Rightarrow> byte list" where
  "sprite c n = take n (drop (unat (I c)) (Memory c))"

text \<open>The sprite does not lie in the memory that the screen of realistic mode uses.\<close>

definition sprite_apart :: "Chip8 \<Rightarrow> nat \<Rightarrow> bool" where
  "sprite_apart c n =
     (case Screen c of
        Own xs \<Rightarrow> True
      | View off len \<Rightarrow> unat (I c) + n \<le> off \<or> off + len \<le> unat (I c))"

text \<open>Every pixel of the screen \<open>s\<close> is set in \<open>t\<close>.\<close>

definition covers :: "byte list \<Rightarrow> byte list \<Rightarrow> bool" where
  "covers t s \<longleftrightarrow> length t = length s \<and> (\<forall>i < length s. t ! i AND s ! i = s ! i)"

text \<open>No two of the operations share a pixel.\<close>

fun apart_ops :: "(nat \<times> byte) list \<Rightarrow> bool" where
  "apart_ops [] = True"
| "apart_ops ((i, m) # ops) = (list_all (\<lambda>(j, n). i = j \<longrightarrow> m AND n = 0) ops \<and> apart_ops ops)"

text \<open>
  What DXYN draws in the state \<open>c\<close>, for the registers \<open>X\<close>, \<open>Y\<close> and the row count
  of the opcode: the bytes of the screen that the sprite at \<open>I\<close> falls on, each with the
  bits of the sprite in it.
\<close>

definition drawn :: "Chip8 \<Rightarrow> nat \<Rightarrow> nat \<Rightarrow> byte \<Rightarrow> (nat \<times> byte) list" where
  "drawn c X Y rows =
     sprite_ops (Width c) (Height c) (V c ! X mod Width c) (V c ! Y mod Height c)
       (sprite c (unat rows))"

text \<open>In the screen \<open>s\<close> every pixel of the operations is off; is on.\<close>

definition all_off :: "(nat \<times> byte) list \<Rightarrow> byte list \<Rightarrow> bool" where
  "all_off ops s = list_all (\<lambda>(i, m). s ! i AND m = 0) ops"

definition all_on :: "(nat \<times> byte) list \<Rightarrow> byte list \<Rightarrow> bool" where
  "all_on ops s = list_all (\<lambda>(i, m). s ! i AND m = m) ops"

text \<open>
  A draw writes no register but \<open>V[0xF]\<close>, where one that turns no pixel off leaves 0.
  The coordinates \<open>V[X]\<close>, \<open>V[Y]\<close> of the next draw are then those of this one: \<open>X\<close>
  and \<open>Y\<close> are not \<open>0xF\<close>, or \<open>V[0xF]\<close> is the same coordinate as 0 already.
\<close>

definition same_place :: "Chip8 \<Rightarrow> nat \<Rightarrow> nat \<Rightarrow> bool" where
  "same_place c X Y \<longleftrightarrow>
     (V c)[0xF := 0] ! X mod Width c = V c ! X mod Width c \<and>
     (V c)[0xF := 0] ! Y mod Height c = V c ! Y mod Height c"

section \<open>The disassembler: one record for each word\<close>

lemma disassemble_loop_length: "length (disassemble_loop b) = length b div 2"
  by (induction b rule: disassemble_loop.induct) simp_all

lemma disassemble_loop_sizes:
  "even (length b) \<Longrightarrow> sum_list (map Size (disassemble_loop b)) = int (length b)"
  by (induction b rule: disassemble_loop.induct) (simp_all add: Size_def)

lemma disassemble_loop_words:
  "k < length b div 2 \<Longrightarrow> ibytes (disassemble_loop b ! k) = [b ! (2 * k), b ! (2 * k + 1)]"
proof (induction b arbitrary: k rule: disassemble_loop.induct)
  case (1 b0 b1 bs)
  then show ?case by (cases k) simp_all
qed simp_all

text \<open>
  C9.  On a buffer of even length \<open>L\<close>, \<open>DisassembleSimple\<close> returns \<open>L/2\<close> records,
  the \<open>k\<close>-th holding the \<open>k\<close>-th two-byte word, and their sizes sum to \<open>L\<close>; it
  returns the error, and no records, exactly when the length is odd.
\<close>

theorem DisassembleSimple_records:
  "(even (length b) \<longrightarrow>
      (\<exists>res. DisassembleSimple b = Some res \<and> length res = length b div 2 \<and>
         (\<forall>k < length res. ibytes (res ! k) = [b ! (2 * k), b ! (2 * k + 1)]) \<and>
         sum_list (map Size res) = int (length b))) \<and>
   (DisassembleSimple b = None \<longleftrightarrow> odd (length b))"
  by (auto simp: DisassembleSimple_def disassemble_loop_length disassemble_loop_sizes
      disassemble_loop_words even_iff_mod_2_eq_zero)

theorem DisassembleSimple_records_witness:
  "even (length [0x12, 0x34 :: byte]) \<and>
   (\<exists>res. DisassembleSimple [0x12, 0x34] = Some res \<and> length res = 1 \<and>
      ibytes (res ! 0) = [0x12, 0x34] \<and> sum_list (map Size res) = 2) \<and>
   odd (length [0x12, 0x34, 0x56 :: byte]) \<and> DisassembleSimple [0x12, 0x34, 0x56] = None"
  using DisassembleSimple_records [of "[0x12, 0x34]"]
    DisassembleSimple_records [of "[0x12, 0x34, 0x56]"]
  by auto

section \<open>The default machine\<close>

lemma length_fonts: "length fonts = 80"
  by (simp add: fonts_def)

text \<open>\<open>New\<close> with the default settings, then \<open>Load\<close>: the fields, and where the
  program lies.\<close>

lemma default_machine_Some:
  assumes "length p \<le> 3584" and "p \<noteq> []"
  shows "\<exists>c. default_machine p = Some c \<and>
      length (Memory c) = 4096 \<and> (\<forall>i < length p. Memory c ! (512 + i) = p ! i) \<and>
      V c = replicate 16 0 \<and> I c = 0 \<and> Stack c = View 0xEA0 6 \<and> SP c = - 1 \<and> PC c = 0x200 \<and>
      DT c = 0 \<and> ST c = 0 \<and> Keyboard c = 0 \<and> Screen c = View 0xF00 256 \<and>
      Width c = 64 \<and> Height c = 32 \<and> TimerInterval c = 16666666 \<and>
      lastTimerUpdate c = None \<and> wii c = None \<and> pLegacy c = False"
  using assms
  by (simp add: default_machine_def New_def Validate_def DefaultSettings_def Load_def copy_def
      length_fonts nth_append Let_def)

section \<open>The timers\<close>

lemma timers_total:
  "0 < TimerInterval c \<Longrightarrow>
   \<exists>d s t' evs'. timers now t c evs = Some (c\<lparr>DT := d, ST := s, lastTimerUpdate := Some t'\<rparr>, evs')"
proof (induction now t c evs rule: timers.induct)
  case (1 now t c evs)
  show ?case
  proof (cases "now - t \<ge> TimerInterval c")
    case False
    then have "timers now t c evs = Some (c\<lparr>lastTimerUpdate := Some t\<rparr>, evs)"
      by (simp add: timers.simps)
    moreover have "c\<lparr>lastTimerUpdate := Some t\<rparr> = c\<lparr>DT := DT c, ST := ST c, lastTimerUpdate := Some t\<rparr>"
      by simp
    ultimately show ?thesis by metis
  next
    case True
    define c1 where "c1 = (if DT c > 0 then c\<lparr>DT := DT c - 1\<rparr> else c)"
    define c2 where "c2 = (if ST c1 > 0 then c1\<lparr>ST := ST c1 - 1\<rparr> else c1)"
    define evs' where "evs' = (if ST c1 > 0 then evs @ [Beep] else evs)"
    have ti: "TimerInterval c2 = TimerInterval c" by (simp add: c1_def c2_def)
    have eq: "timers now t c evs = timers now (t + TimerInterval c2) c2 evs'"
      using True "1.prems" by (subst timers.simps) (simp add: Let_def c1_def c2_def evs'_def)
    have "\<exists>d s t' evs''. timers now (t + TimerInterval c2) c2 evs' =
        Some (c2\<lparr>DT := d, ST := s, lastTimerUpdate := Some t'\<rparr>, evs'')"
      using "1.IH"[OF True _ c1_def c2_def evs'_def] "1.prems" ti by simp
    moreover have "\<And>d s t'. c2\<lparr>DT := d, ST := s, lastTimerUpdate := Some t'\<rparr> =
        c\<lparr>DT := d, ST := s, lastTimerUpdate := Some t'\<rparr>"
      by (simp add: c1_def c2_def)
    ultimately show ?thesis using eq by simp
  qed
qed

section \<open>A cycle that returns an error\<close>

lemma run_error_keeps_state:
  "run k rnd a c = Return (Some e) c' evs \<Longrightarrow> c' = c \<and> evs = []"
  by (cases k)
     (auto simp: ok_def fail_def cls_def ret_def call_def Let_def drw_def skp_def sknp_def
        ld_bcd_def ld_set_memory_def ld_memory_def split: if_splits option.splits)

text \<open>
  C6.  A cycle that starts with no pending key-wait and returns an error leaves the
  machine as it was at the start, but for \<open>PC\<close>, which is advanced by 2: no arm of the
  \<open>switch\<close> has written a register, the memory, the stack, the screen or a timer before
  its checks, and the timers are not run.  The driver has seen \<open>OnUpdate\<close> only.
\<close>

theorem Tick_error_only_advances_PC:
  assumes "wii c = None" and "Tick now rnd c = Return (Some e) c' evs"
  shows "c' = c\<lparr>PC := PC c + 2\<rparr> \<and> evs = [OnUpdate]"
proof -
  from assms have fe: "fetch_exec now rnd c = Return (Some e) c' evs"
    by (simp add: Tick_def)
  define a where "a = unat (PC c)"
  define c1 where "c1 = c\<lparr>PC := PC c + 2\<rparr>"
  define r where "r = run (Tick_switch (opcode0 c1 a) (opcode1 c1 a)) rnd a c1"
  from fe obtain evs0 where "r = Return (Some e) c' evs0" and "evs = OnUpdate # evs0"
    unfolding fetch_exec_def Let_def a_def [symmetric] c1_def [symmetric] r_def [symmetric]
    by (auto split: if_splits result.splits option.splits prod.splits)
  then show ?thesis
    using run_error_keeps_state [of _ rnd a c1 e c' evs0] by (simp add: r_def c1_def)
qed

text \<open>RET on the empty stack of the default machine.\<close>

theorem Tick_error_only_advances_PC_witness:
  "\<exists>c. default_machine [0x00, 0xEE] = Some c \<and> wii c = None \<and>
     Tick 0 0 c = Return (Some StackOverflowErr) (c\<lparr>PC := 0x202\<rparr>) [OnUpdate]"
proof -
  obtain c where dm: "default_machine [0x00, 0xEE] = Some c"
    and len: "length (Memory c) = 4096"
    and prog: "\<forall>i < length [0x00, 0xEE :: byte]. Memory c ! (512 + i) = [0x00, 0xEE] ! i"
    and fields: "Stack c = View 0xEA0 6" "SP c = - 1" "PC c = 0x200" "wii c = None"
    using default_machine_Some [of "[0x00, 0xEE]"] by auto
  from prog [rule_format, of 0] prog [rule_format, of 1]
  have m: "Memory c ! 512 = 0x00" "Memory c ! 513 = 0xEE"
    by simp_all
  have "\<exists>c' evs. Tick 0 0 c = Return (Some StackOverflowErr) c' evs"
    by (simp add: Tick_def fetch_exec_def len m fields opcode0_def opcode1_def Tick_switch_def
        opNNN_def ret_def fail_def)
  then obtain c' evs where t: "Tick 0 0 c = Return (Some StackOverflowErr) c' evs" by blast
  from Tick_error_only_advances_PC [OF fields(4) t] t dm fields show ?thesis
    by simp
qed

section \<open>Running programs on the default machine\<close>

lemmas tick_eval = Tick_def fetch_exec_def opcode0_def opcode1_def Tick_switch_def
  opNNN_def opX_def opY_def setV_def ok_def fail_def skip_def timers.simps

lemma replicate_16: "replicate 16 x = [x, x, x, x, x, x, x, x, x, x, x, x, x, x, x, x]"
  by (simp add: numeral_eq_Suc)

text \<open>
  C4.  \<open>JP V0,NNN\<close> sets \<open>PC\<close> to \<open>NNN + V0 - 2\<close>: with \<open>V0 = 0\<close>, the opcode
  \<open>B300\<close> leaves \<open>PC\<close> at \<open>0x2FE\<close>, not at \<open>0x300\<close>.
\<close>

theorem JpV0_lands_two_below:
  "(case default_machine [0xB3, 0x00] of
      None \<Rightarrow> False
    | Some c \<Rightarrow>
        (case Tick 0 0 c of
           Return None c' evs \<Rightarrow> V c ! 0 = 0 \<and> PC c' = 0x2FE
         | _ \<Rightarrow> False))"
proof -
  obtain c where dm: "default_machine [0xB3, 0x00] = Some c"
    and len: "length (Memory c) = 4096"
    and prog: "\<forall>i < length [0xB3, 0x00 :: byte]. Memory c ! (512 + i) = [0xB3, 0x00] ! i"
    and fields: "V c = replicate 16 0" "PC c = 0x200" "wii c = None"
      "TimerInterval c = 16666666" "lastTimerUpdate c = None"
    using default_machine_Some [of "[0xB3, 0x00]"] by auto
  from prog [rule_format, of 0] prog [rule_format, of 1]
  have m: "Memory c ! 512 = 0xB3" "Memory c ! 513 = 0x00"
    by simp_all
  show ?thesis
    by (simp add: dm tick_eval len m fields)
qed

text \<open>The two \<open>switch\<close>es give an opcode the same type exactly outside the group \<open>0x9\<close>.\<close>

lemma switches_agree:
  "Tick_switch b0 b1 = Disassemble_switch b0 b1 \<longleftrightarrow> b0 AND 0xF0 \<noteq> 0x90"
  by (simp add: Tick_switch_def Disassemble_switch_def Let_def)

text \<open>
  C5.  The opcode \<open>9120\<close>: \<open>Tick\<close> runs the arm of \<open>SNE VX,VY\<close>, which compares two
  registers, and \<open>DisassembleSimple\<close> makes it an \<open>Sne\<close>, the type of \<open>4XNN\<close>, which
  prints a register and a constant.
\<close>

theorem SneRegister_disassembled_as_Sne:
  "Tick_switch 0x91 0x20 = SneRegister \<and>
   DisassembleSimple [0x91, 0x20] =
     Some [\<lparr>ikind = Sne, ibytes = [0x91, 0x20], itext = ''SNE V1,20''\<rparr>]"
  by (simp add: Tick_switch_def DisassembleSimple_def Disassemble_switch_def init_text_def
      hexw_def to_hex.simps hexdigit_def)

text \<open>
  SUB and SUBN on registers other than \<open>VF\<close> subtract the old operands; with \<open>VF\<close>
  as the second operand, SUB subtracts the flag it has just written.
\<close>

lemma sub_register_plain:
  assumes "length (V c) = 16" "x < 15" "y < 15"
  shows "V (sub_register x y c) ! 0xF = (if V c ! x \<ge> V c ! y then 1 else 0) \<and>
         V (sub_register x y c) ! x = V c ! x - V c ! y"
  using assms by (simp add: sub_register_def setV_def Let_def)

lemma subn_plain:
  assumes "length (V c) = 16" "x < 15" "y < 15"
  shows "V (subn x y c) ! 0xF = (if V c ! x > V c ! y then 0 else 1) \<and>
         V (subn x y c) ! x = V c ! y - V c ! x"
  using assms by (simp add: subn_def setV_def Let_def)

lemma sub_register_flag_operand:
  assumes "length (V c) = 16" "x < 15"
  shows "V (sub_register x 0xF c) ! x = V c ! x - (if V c ! x \<ge> V c ! 0xF then 1 else 0)"
  using assms by (simp add: sub_register_def setV_def Let_def)

text \<open>
  C7.  \<open>SUB V0,VF\<close> (opcode \<open>80F5\<close>) with \<open>V0 = 10\<close> and \<open>VF = 3\<close>: the flag is
  written to \<open>VF\<close> before the subtraction reads it, and \<open>V0\<close> becomes \<open>10 - 1 = 9\<close>,
  not \<open>10 - 3 = 7\<close>.
\<close>

theorem SUB_reads_the_flag_it_wrote:
  "(case default_machine [0x6F, 0x03, 0x60, 0x0A, 0x80, 0xF5] of
      None \<Rightarrow> False
    | Some c \<Rightarrow>
        (case Run [(0, 0), (0, 0), (0, 0)] c of
           [Return None c1 evs1, Return None c2 evs2, Return None c3 evs3] \<Rightarrow>
             V c2 ! 0 = 10 \<and> V c2 ! 0xF = 3 \<and> V c3 ! 0 = 9 \<and> V c3 ! 0xF = 1
         | _ \<Rightarrow> False))"
proof -
  obtain c where dm: "default_machine [0x6F, 0x03, 0x60, 0x0A, 0x80, 0xF5] = Some c"
    and len: "length (Memory c) = 4096"
    and prog: "\<forall>i < length [0x6F, 0x03, 0x60, 0x0A, 0x80, 0xF5 :: byte].
        Memory c ! (512 + i) = [0x6F, 0x03, 0x60, 0x0A, 0x80, 0xF5] ! i"
    and fields: "V c = replicate 16 0" "PC c = 0x200" "wii c = None"
      "TimerInterval c = 16666666" "lastTimerUpdate c = None"
    using default_machine_Some [of "[0x6F, 0x03, 0x60, 0x0A, 0x80, 0xF5]"] by auto
  from prog [rule_format, of 0] prog [rule_format, of 1] prog [rule_format, of 2]
    prog [rule_format, of 3] prog [rule_format, of 4] prog [rule_format, of 5]
  have m: "Memory c ! 512 = 0x6F" "Memory c ! 513 = 0x03" "Memory c ! 514 = 0x60"
    "Memory c ! 515 = 0x0A" "Memory c ! 516 = 0x80" "Memory c ! 517 = 0xF5"
    by simp_all
  show ?thesis
    by (simp add: dm tick_eval len m fields sub_register_def replicate_16)
qed

text \<open>A cycle with a pending wait and no new key returns at once, whatever the time.\<close>

lemma Tick_waiting:
  assumes "wii c = Some (r, z)" and "Keyboard c AND z = 0"
  shows "Tick now rnd c = Return None c [OnUpdate]"
  using assms by (simp add: Tick_def)

text \<open>
  C3.  After \<open>LD V3,K\<close> with no key pressed, a cycle one second later returns at once:
  the machine is the one it was, the delay and sound timers still at 5 and
  \<open>lastTimerUpdate\<close> where it was, and the driver has not been asked to beep.
\<close>

theorem key_wait_stops_the_timers:
  "(case default_machine [0x6A, 0x05, 0xFA, 0x15, 0xFA, 0x18, 0xF3, 0x0A] of
      None \<Rightarrow> False
    | Some c \<Rightarrow>
        (case Run [(0, 0), (0, 0), (0, 0), (0, 0), (1000000000, 0)] c of
           [r1, r2, r3, Return None c4 evs4, Return None c5 evs5] \<Rightarrow>
             wii c4 = Some (3, 0xFFFF) \<and> Keyboard c4 = 0 \<and> DT c4 = 5 \<and> ST c4 = 5 \<and>
             lastTimerUpdate c4 = Some 0 \<and> TimerInterval c4 = 16666666 \<and>
             c5 = c4 \<and> evs5 = [OnUpdate]
         | _ \<Rightarrow> False))"
proof -
  obtain c where dm: "default_machine [0x6A, 0x05, 0xFA, 0x15, 0xFA, 0x18, 0xF3, 0x0A] = Some c"
    and len: "length (Memory c) = 4096"
    and prog: "\<forall>i < length [0x6A, 0x05, 0xFA, 0x15, 0xFA, 0x18, 0xF3, 0x0A :: byte].
        Memory c ! (512 + i) = [0x6A, 0x05, 0xFA, 0x15, 0xFA, 0x18, 0xF3, 0x0A] ! i"
    and fields: "V c = replicate 16 0" "PC c = 0x200" "wii c = None" "Keyboard c = 0"
      "TimerInterval c = 16666666" "lastTimerUpdate c = None" "DT c = 0" "ST c = 0"
    using default_machine_Some [of "[0x6A, 0x05, 0xFA, 0x15, 0xFA, 0x18, 0xF3, 0x0A]"] by auto
  from prog [rule_format, of 0] prog [rule_format, of 1] prog [rule_format, of 2]
    prog [rule_format, of 3] prog [rule_format, of 4] prog [rule_format, of 5]
    prog [rule_format, of 6] prog [rule_format, of 7]
  have m: "Memory c ! 512 = 0x6A" "Memory c ! 513 = 0x05" "Memory c ! 514 = 0xFA"
    "Memory c ! 515 = 0x15" "Memory c ! 516 = 0xFA" "Memory c ! 517 = 0x18"
    "Memory c ! 518 = 0xF3" "Memory c ! 519 = 0x0A"
    by simp_all
  show ?thesis
    by (simp add: dm tick_eval len m fields replicate_16)
qed

text \<open>The slots of the stack that \<open>New\<close> makes: half of \<open>StackSize\<close> in realistic mode.\<close>

lemma New_stack_len:
  assumes "New s = Some (Some (c, evs))" and "0 \<le> StackSize s"
  shows "stack_len c = (if Realistic s then nat (StackSize s) div 2 else nat (StackSize s))"
proof (cases "Realistic s")
  case False
  with assms show ?thesis
    by (auto simp: New_def Let_def stack_len_def split: if_splits)
next
  case True
  with assms have le: "StackSize s \<le> 12"
    by (auto simp: New_def Validate_def split: if_splits)
  define k where "k = nat (StackSize s)"
  have k: "StackSize s = int k" "k \<le> 12" using assms(2) le by (simp_all add: k_def)
  have "unat (0xEA0 :: uint16) + unat (word_of_nat k :: uint16) < 2 ^ LENGTH(16)"
    using k(2) by (simp add: take_bit_nat_eq_self unsigned_of_nat)
  then have "unat ((0xEA0 :: uint16) + word_of_nat k) = 0xEA0 + k"
    using k(2) by (simp add: unat_add_lem [THEN iffD1] unsigned_of_nat take_bit_nat_eq_self)
  with assms True k show ?thesis
    by (auto simp: New_def Let_def stack_len_def split: if_splits)
qed

text \<open>
  C1.  The stack of the default machine has six slots, not twelve: from the empty
  stack six \<open>CALL\<close>s succeed, and the seventh returns \<open>StackOverflowErr\<close> and pushes
  nothing.
\<close>

theorem default_stack_holds_six:
  "(case default_machine [0x22, 0x00] of
      None \<Rightarrow> False
    | Some c \<Rightarrow>
        stack_len c = 6 \<and> SP c = - 1 \<and>
        (case Run [(0, 0), (0, 0), (0, 0), (0, 0), (0, 0), (0, 0), (0, 0)] c of
           [Return None c1 evs1, Return None c2 evs2, Return None c3 evs3,
            Return None c4 evs4, Return None c5 evs5, Return None c6 evs6, Return e7 c7 evs7] \<Rightarrow>
             SP c6 = 5 \<and> e7 = Some StackOverflowErr \<and> c7 = c6\<lparr>PC := PC c6 + 2\<rparr>
         | _ \<Rightarrow> False))"
proof -
  obtain c where dm: "default_machine [0x22, 0x00] = Some c"
    and len: "length (Memory c) = 4096"
    and prog: "\<forall>i < length [0x22, 0x00 :: byte]. Memory c ! (512 + i) = [0x22, 0x00] ! i"
    and fields: "Stack c = View 0xEA0 6" "SP c = - 1" "PC c = 0x200" "wii c = None"
      "TimerInterval c = 16666666" "lastTimerUpdate c = None"
    using default_machine_Some [of "[0x22, 0x00]"] by auto
  from prog [rule_format, of 0] prog [rule_format, of 1]
  have m: "Memory c ! 512 = 0x22" "Memory c ! 513 = 0x00"
    by simp_all
  show ?thesis
    by (simp add: dm tick_eval len m fields call_def stack_len_def stack_set_def Let_def)
qed

section \<open>The pending key-wait\<close>

lemma and_single_bit:
  "(x :: 'a::len word) AND 2 ^ j = (if bit x j then 2 ^ j else 0)"
  by (rule bit_eqI) (auto simp: bit_and_iff bit_exp_iff)

lemma KeyNumbers_at_zero: "KeyNumbers_at 0 = 0"
  by (simp add: KeyNumbers_at_def KeyNumbers_def)

lemma KeyNumbers_at_flag: "j < 16 \<Longrightarrow> KeyNumbers_at (2 ^ j) = of_nat j"
proof -
  assume "j < 16"
  then have "j = 0 \<or> j = 1 \<or> j = 2 \<or> j = 3 \<or> j = 4 \<or> j = 5 \<or> j = 6 \<or> j = 7 \<or>
      j = 8 \<or> j = 9 \<or> j = 10 \<or> j = 11 \<or> j = 12 \<or> j = 13 \<or> j = 14 \<or> j = 15"
    by arith
  then show ?thesis
    by (auto simp: KeyNumbers_at_def KeyNumbers_def)
qed

lemma KeyNumbers_at_bit:
  "j < 16 \<Longrightarrow> KeyNumbers_at (changed AND 2 ^ j) = (if bit changed j then of_nat j else 0)"
  by (simp add: and_single_bit KeyNumbers_at_zero KeyNumbers_at_flag)

lemma key_number_nonzero: "0 < j \<Longrightarrow> j < 16 \<Longrightarrow> (of_nat j :: byte) \<noteq> 0"
  by (auto simp: word_of_nat_eq_0_iff dest: dvd_imp_le)

lemma first_key_none:
  "r < length vs \<Longrightarrow> k \<le> 15 \<Longrightarrow> (\<forall>j. k \<le> j \<and> j \<le> 15 \<and> j \<noteq> 0 \<longrightarrow> \<not> bit changed j) \<Longrightarrow>
   first_key k changed r vs = vs[r := 0]"
proof (induction k changed r vs rule: first_key.induct)
  case (1 k changed r vs)
  have "KeyNumbers_at (changed AND 2 ^ k) = (if bit changed k then of_nat k else 0)"
    using "1.prems" by (intro KeyNumbers_at_bit) simp
  then have kn: "KeyNumbers_at (changed AND 2 ^ k) = 0"
    using "1.prems" by (cases "k = 0") auto
  show ?case
  proof (cases "15 \<le> k")
    case True
    then show ?thesis using "1.prems" kn by (subst first_key.simps) simp
  next
    case False
    have "first_key k changed r vs = first_key (k + 1) changed r (vs[r := 0])"
      using "1.prems" kn False by (subst first_key.simps) simp
    also have "\<dots> = (vs[r := 0])[r := 0]"
      using "1.prems" kn False by (intro "1.IH") (auto simp: Let_def)
    finally show ?thesis by simp
  qed
qed

lemma first_key_hit:
  "r < length vs \<Longrightarrow> k \<le> j0 \<Longrightarrow> j0 \<le> 15 \<Longrightarrow> j0 \<noteq> 0 \<Longrightarrow> bit changed j0 \<Longrightarrow>
   (\<forall>j. k \<le> j \<and> j < j0 \<and> j \<noteq> 0 \<longrightarrow> \<not> bit changed j) \<Longrightarrow>
   first_key k changed r vs = vs[r := of_nat j0]"
proof (induction k changed r vs rule: first_key.induct)
  case (1 k changed r vs)
  show ?case
  proof (cases "k = j0")
    case True
    then have "KeyNumbers_at (changed AND 2 ^ k) = of_nat j0"
      using "1.prems" by (simp add: KeyNumbers_at_bit)
    moreover have "(of_nat j0 :: byte) \<noteq> 0"
      using "1.prems" by (intro key_number_nonzero) auto
    ultimately show ?thesis using "1.prems" by (subst first_key.simps) simp
  next
    case False
    then have lt: "k < j0" using "1.prems" by simp
    have "KeyNumbers_at (changed AND 2 ^ k) = (if bit changed k then of_nat k else 0)"
      using "1.prems" lt by (intro KeyNumbers_at_bit) simp
    then have kn: "KeyNumbers_at (changed AND 2 ^ k) = 0"
      using "1.prems" lt by (cases "k = 0") auto
    have "first_key k changed r vs = first_key (k + 1) changed r (vs[r := 0])"
      using "1.prems" kn lt by (subst first_key.simps) simp
    also have "\<dots> = (vs[r := 0])[r := of_nat j0]"
      using "1.prems" kn lt by (intro "1.IH") (auto simp: Let_def)
    finally show ?thesis by simp
  qed
qed

text \<open>
  C2, as amended.  On a cycle with a pending key-wait where some bit of
  \<open>Keyboard AND zeroBits\<close> is set, and key 0 is not among those bits or is the only one,
  the number \<open>k\<close> of the lowest of the bits is stored in the register of the wait, the
  wait is cleared, and the cycle goes on as a cycle with no pending wait does from that
  state: it fetches and executes the next instruction and runs the timers.
\<close>

theorem key_wait_resolved:
  assumes w: "wii c = Some (r, z)" and nz: "Keyboard c AND z \<noteq> 0"
    and r: "unat r < length (V c)"
    and k0: "\<not> bit (Keyboard c AND z) 0 \<or> Keyboard c AND z = 1"
  shows "\<exists>k<16. bit (Keyboard c AND z) k \<and> (\<forall>j<k. \<not> bit (Keyboard c AND z) j) \<and>
           Tick now rnd c = Tick now rnd (c\<lparr>V := (V c)[unat r := of_nat k], wii := None\<rparr>)"
proof -
  define changed where "changed = Keyboard c AND z"
  from nz have "\<exists>n. bit changed n"
    by (auto simp: changed_def bit_eq_iff)
  then obtain n where n: "bit changed n" ..
  define k where "k = (LEAST n. bit changed n)"
  have bk: "bit changed k" unfolding k_def using n by (rule LeastI)
  have least: "\<forall>j<k. \<not> bit changed j"
    unfolding k_def using not_less_Least by blast
  have k16: "k < 16" using bit_imp_le_length [OF bk] by simp
  have fk: "first_key 0 changed (unat r) (V c) = (V c)[unat r := of_nat k]"
  proof (cases "k = 0")
    case True
    with bk k0 have "changed = 1" by (simp add: changed_def)
    then have "first_key 0 changed (unat r) (V c) = (V c)[unat r := 0]"
      using r by (intro first_key_none) (auto simp: bit_1_iff)
    with True show ?thesis by simp
  next
    case False
    then show ?thesis
      using r bk least k16 by (intro first_key_hit) auto
  qed
  have "Tick now rnd c = fetch_exec now rnd (c\<lparr>V := first_key 0 changed (unat r) (V c), wii := None\<rparr>)"
    using w nz r by (simp add: Tick_def changed_def)
  also have "\<dots> = Tick now rnd (c\<lparr>V := (V c)[unat r := of_nat k], wii := None\<rparr>)"
    by (simp add: Tick_def fk)
  finally show ?thesis using bk least k16 unfolding changed_def by blast
qed

text \<open>After \<open>LD V3,K\<close> on the default machine, with key 5 pressed.\<close>

theorem key_wait_resolved_witness:
  "\<exists>c c1 evs1. default_machine [0xF3, 0x0A, 0x6A, 0x42] = Some c \<and>
     Tick 0 0 c = Return None c1 evs1 \<and> wii c1 = Some (3, 0xFFFF) \<and>
     (\<exists>k<16. bit (0x20 :: uint16) k \<and> (\<forall>j<k. \<not> bit (0x20 :: uint16) j) \<and>
        Tick 0 0 (c1\<lparr>Keyboard := 0x20\<rparr>) =
        Tick 0 0 (c1\<lparr>Keyboard := 0x20, V := (V c1)[3 := of_nat k], wii := None\<rparr>))"
proof -
  obtain c where dm: "default_machine [0xF3, 0x0A, 0x6A, 0x42] = Some c"
    and len: "length (Memory c) = 4096"
    and prog: "\<forall>i < length [0xF3, 0x0A, 0x6A, 0x42 :: byte].
        Memory c ! (512 + i) = [0xF3, 0x0A, 0x6A, 0x42] ! i"
    and fields: "V c = replicate 16 0" "PC c = 0x200" "wii c = None" "Keyboard c = 0"
      "TimerInterval c = 16666666" "lastTimerUpdate c = None"
    using default_machine_Some [of "[0xF3, 0x0A, 0x6A, 0x42]"] by auto
  from prog [rule_format, of 0] prog [rule_format, of 1]
  have m: "Memory c ! 512 = 0xF3" "Memory c ! 513 = 0x0A"
    by simp_all
  define c1 where "c1 = c\<lparr>PC := 0x202, wii := Some (3, 0xFFFF), lastTimerUpdate := Some 0\<rparr>"
  have t1: "Tick 0 0 c = Return None c1 [OnUpdate]"
    by (simp add: tick_eval len m fields c1_def)
  have "\<exists>k<16. bit (Keyboard (c1\<lparr>Keyboard := 0x20\<rparr>) AND 0xFFFF) k \<and>
      (\<forall>j<k. \<not> bit (Keyboard (c1\<lparr>Keyboard := 0x20\<rparr>) AND 0xFFFF) j) \<and>
      Tick 0 0 (c1\<lparr>Keyboard := 0x20\<rparr>) =
      Tick 0 0 (c1\<lparr>Keyboard := 0x20\<rparr>\<lparr>V := (V (c1\<lparr>Keyboard := 0x20\<rparr>))[unat (3 :: byte) := of_nat k],
        wii := None\<rparr>)"
    by (rule key_wait_resolved) (simp_all add: c1_def fields)
  then show ?thesis using dm t1 by (simp add: c1_def)
qed

text \<open>
  C2 as stated fails: after \<open>LD V3,K\<close>, with the keys 0 and 5 pressed, the cycle stores
  5 in \<open>V3\<close>, not 0, and in the same cycle fetches and executes the next instruction
  \<open>LD VA,42\<close>.
\<close>

theorem key_wait_resolved_counterexample:
  "(case default_machine [0xF3, 0x0A, 0x6A, 0x42] of
      None \<Rightarrow> False
    | Some c \<Rightarrow>
        (case Tick 0 0 c of
           Return None c1 evs1 \<Rightarrow>
             wii c1 = Some (3, 0xFFFF) \<and> PC c1 = 0x202 \<and>
             (case Tick 0 0 (c1\<lparr>Keyboard := 0x21\<rparr>) of
                Return None c2 evs2 \<Rightarrow>
                  V c2 ! 3 = 5 \<and> wii c2 = None \<and> PC c2 = 0x204 \<and> V c2 ! 0xA = 0x42
              | _ \<Rightarrow> False)
         | _ \<Rightarrow> False))"
proof -
  obtain c where dm: "default_machine [0xF3, 0x0A, 0x6A, 0x42] = Some c"
    and len: "length (Memory c) = 4096"
    and prog: "\<forall>i < length [0xF3, 0x0A, 0x6A, 0x42 :: byte].
        Memory c ! (512 + i) = [0xF3, 0x0A, 0x6A, 0x42] ! i"
    and fields: "V c = replicate 16 0" "PC c = 0x200" "wii c = None" "Keyboard c = 0"
      "TimerInterval c = 16666666" "lastTimerUpdate c = None"
    using default_machine_Some [of "[0xF3, 0x0A, 0x6A, 0x42]"] by auto
  from prog [rule_format, of 0] prog [rule_format, of 1] prog [rule_format, of 2]
    prog [rule_format, of 3]
  have m: "Memory c ! 512 = 0xF3" "Memory c ! 513 = 0x0A" "Memory c ! 514 = 0x6A"
    "Memory c ! 515 = 0x42"
    by simp_all
  have fk: "first_key 0 0x21 3 (replicate 16 0) = (replicate 16 0)[3 := 5]"
    by (simp add: first_key.simps KeyNumbers_at_def KeyNumbers_def replicate_16)
  show ?thesis
    by (simp add: dm tick_eval len m fields fk)
qed

section \<open>Well-formed machines\<close>

lemma low_nibble_less: "unat ((x :: byte) AND 0x0F) < 16"
proof -
  have "x AND 0x0F \<le> 0x0F" by (rule word_and_le1)
  then show ?thesis by (simp add: word_le_nat_alt)
qed

lemma high_nibble_less: "unat (drop_bit 4 ((x :: byte) AND 0xF0)) < 16"
proof -
  have "unat (drop_bit 4 (x AND 0xF0)) = unat (x AND 0xF0) div 16"
    by (simp add: drop_bit_eq_div unat_div)
  moreover have "unat (x AND 0xF0) < 256"
    using unsigned_less [of "x AND 0xF0", where ?'a = nat] by simp
  ultimately show ?thesis by simp
qed

lemma wf_setV [simp]: "well_formed (setV c i v) = well_formed c"
  by (simp add: well_formed_def setV_def stack_len_def screen_len_def)

lemma wf_skip [simp]: "well_formed (skip c) = well_formed c"
  by (simp add: well_formed_def skip_def stack_len_def screen_len_def)

lemma wf_screen_set [simp]: "well_formed (screen_set c i v) = well_formed c"
  by (cases "Screen c")
     (simp_all add: well_formed_def screen_set_def stack_len_def screen_len_def)

lemma wf_Memory_update [simp]:
  "length m = length (Memory c) \<Longrightarrow> well_formed (c\<lparr>Memory := m\<rparr>) = well_formed c"
  by (simp add: well_formed_def stack_len_def screen_len_def)

lemma wf_fields [simp]:
  "well_formed (c\<lparr>PC := p\<rparr>) = well_formed c"
  "well_formed (c\<lparr>I := i\<rparr>) = well_formed c"
  "well_formed (c\<lparr>DT := d\<rparr>) = well_formed c"
  "well_formed (c\<lparr>ST := s\<rparr>) = well_formed c"
  "well_formed (c\<lparr>lastTimerUpdate := t\<rparr>) = well_formed c"
  by (simp_all add: well_formed_def stack_len_def screen_len_def)

lemma stack_len_stack_set [simp]: "stack_len (stack_set c i v) = stack_len c"
  by (simp add: stack_len_def stack_set_def split: slice.splits)

lemma wf_stack_set [simp]: "well_formed (stack_set c i v) = well_formed c"
  by (cases "Stack c")
     (simp_all add: well_formed_def stack_set_def stack_len_def screen_len_def)

lemma wf_cls_fold: "well_formed (fold (\<lambda>i c'. screen_set c' i 0) xs c) = well_formed c"
  by (induction xs arbitrary: c) simp_all

lemma wf_collision [simp]:
  "well_formed (collision k o1 o2 i1 i2 bo m1 m2 c) = well_formed c"
proof (induction k o1 o2 i1 i2 bo m1 m2 c rule: collision.induct)
  case (1 k o1 o2 i1 i2 bo m1 m2 c)
  show ?case
    by (subst collision.simps) (use 1 in \<open>auto simp: Let_def\<close>)
qed

lemma wf_draw_row: "draw_row off x y c = Some c' \<Longrightarrow> well_formed c' = well_formed c"
  by (auto simp: draw_row_def Let_def split: if_splits)

lemma wf_draw_rows: "draw_rows n off x y c = Some c' \<Longrightarrow> well_formed c' = well_formed c"
proof (induction n arbitrary: off y c)
  case (Suc n)
  then show ?case by (auto split: option.splits dest: wf_draw_row)
qed simp

lemma wf_ldMemory [simp]: "well_formed (ldMemory x c) = well_formed c"
proof -
  have a: "\<And>xs c. well_formed (fold (\<lambda>i c'. (setV c' i (Memory c' ! unat (I c')))\<lparr>I := I c' + 1\<rparr>) xs c)
      = well_formed c"
    subgoal for xs c by (induction xs arbitrary: c) simp_all
    done
  have b: "\<And>xs c. well_formed (fold (\<lambda>i c'. setV c' i (Memory c' ! unat (I c' + of_nat i))) xs c)
      = well_formed c"
    subgoal for xs c by (induction xs arbitrary: c) simp_all
    done
  show ?thesis by (simp add: ldMemory_def a b)
qed

lemma wf_Memory_I_update [simp]:
  "well_formed (c\<lparr>Memory := (Memory c)[i := v], I := j\<rparr>) = well_formed c"
  by (simp add: well_formed_def stack_len_def screen_len_def)

lemma wf_ldSetMemory [simp]: "well_formed (ldSetMemory x c) = well_formed c"
proof -
  have a: "\<And>xs c. well_formed (fold (\<lambda>i c'. c'\<lparr>Memory := (Memory c')[unat (I c') := V c' ! i],
      I := I c' + 1\<rparr>) xs c) = well_formed c"
    subgoal for xs c by (induction xs arbitrary: c) simp_all
    done
  have b: "\<And>xs c. well_formed (fold (\<lambda>i c'. c'\<lparr>Memory := (Memory c')[unat (I c' + of_nat i) := V c' ! i]\<rparr>)
      xs c) = well_formed c"
    subgoal for xs c by (induction xs arbitrary: c) simp_all
    done
  show ?thesis by (simp add: ldSetMemory_def a b)
qed

lemma wf_cls: "cls c = Return e c' evs \<Longrightarrow> well_formed c' = well_formed c"
  by (auto simp: cls_def wf_cls_fold)

lemma wf_ret: "well_formed c \<Longrightarrow> ret c = Return e c' evs \<Longrightarrow> well_formed c'"
  by (auto simp: ret_def ok_def fail_def well_formed_def stack_len_def screen_len_def
      split: if_splits)

lemma wf_call: "well_formed c \<Longrightarrow> call a c = Return e c' evs \<Longrightarrow> well_formed c'"
proof -
  assume wf: "well_formed c" and r: "call a c = Return e c' evs"
  show ?thesis
  proof (cases "SP c \<ge> int (stack_len c) - 1")
    case True
    with r wf show ?thesis by (simp add: call_def fail_def)
  next
    case False
    have "well_formed (c\<lparr>SP := SP c + 1\<rparr>)"
      using wf False by (simp add: well_formed_def stack_len_def screen_len_def)
    with r False show ?thesis
      by (auto simp: call_def ok_def Let_def split: if_splits)
  qed
qed

lemma wf_drw: "well_formed c \<Longrightarrow> drw X Y rows c = Return e c' evs \<Longrightarrow> well_formed c'"
  by (auto simp: drw_def ok_def fail_def Let_def split: if_splits option.splits dest: wf_draw_rows)

lemma wf_run:
  assumes "well_formed c" and "run k rnd a c = Return e c' evs"
  shows "well_formed c'"
proof (cases k)
  case Sys
  with assms show ?thesis
    by (auto simp: ok_def split: if_splits dest: wf_cls wf_ret)
next
  case Call
  with assms show ?thesis
    by (auto dest: wf_call)
next
  case Drw
  with assms show ?thesis
    by (auto dest: wf_drw)
next
  case LdKeyboard
  with assms show ?thesis
    using low_nibble_less [of "opcode0 c a"]
    by (auto simp: ok_def well_formed_def stack_len_def screen_len_def)
qed (use assms in \<open>auto simp: ok_def fail_def add_register_def sub_register_def subn_def shr_def
      shl_def skp_def sknp_def ld_bcd_def ld_set_memory_def ld_memory_def Let_def
      split: if_splits\<close>)

section \<open>Panics\<close>

lemma unat_byte_less: "unat (x :: byte) < 256"
  using unsigned_less [of x, where ?'a = nat] by simp

lemma unat_ucast_byte [simp]: "unat (ucast (x :: byte) :: uint16) = unat x"
proof -
  have "unat x < 2 ^ 16" using unat_byte_less [of x] by simp
  then show ?thesis by (simp add: unsigned_ucast_eq take_bit_nat_eq_self)
qed

text \<open>The two screen indices of a row, as natural numbers.\<close>

lemma row_indices:
  fixes W x y :: byte
  assumes W: "8 dvd unat W" "8 \<le> unat W"
  defines "bw \<equiv> (ucast W :: uint16) div 8"
  shows "bw \<noteq> 0"
    and "unat (ucast y * bw + ucast x div 8) = unat y * (unat W div 8) + unat x div 8"
    and "unat (ucast y * bw + (ucast x div 8 + 1) mod bw) =
           unat y * (unat W div 8) + (unat x div 8 + 1) mod (unat W div 8)"
proof -
  note yb = unat_byte_less [of y] and xb = unat_byte_less [of x] and Wb = unat_byte_less [of W]
  have ubw: "unat bw = unat W div 8"
    by (simp add: bw_def unat_div)
  have bpos: "0 < unat W div 8" using W by (simp add: div_greater_zero_iff)
  with ubw show "bw \<noteq> 0" by (simp add: unat_gt_0 [symmetric])
  have ux: "unat ((ucast x :: uint16) div 8) = unat x div 8"
    by (simp add: unat_div)
  have bwb: "unat W div 8 < 32" using Wb by simp
  have le: "unat y * (unat W div 8) \<le> 255 * 31"
    using yb bwb by (intro mult_mono) simp_all
  have m: "unat ((ucast y :: uint16) * bw) = unat y * (unat W div 8)"
  proof -
    have "unat (ucast y :: uint16) * unat bw < 2 ^ LENGTH(16)"
      using le by (simp add: ubw)
    then show ?thesis by (simp add: unat_mult_lem [THEN iffD1] ubw)
  qed
  have "unat ((ucast y :: uint16) * bw) + unat ((ucast x :: uint16) div 8) < 2 ^ LENGTH(16)"
    using le xb by (simp add: m ux)
  then show "unat (ucast y * bw + ucast x div 8) = unat y * (unat W div 8) + unat x div 8"
    by (simp add: unat_add_lem [THEN iffD1] m ux)
  have "unat ((ucast x :: uint16) div 8) + unat (1 :: uint16) < 2 ^ LENGTH(16)"
    using xb by (simp add: ux)
  then have x1: "unat ((ucast x :: uint16) div 8 + 1) = unat x div 8 + 1"
    by (simp add: unat_add_lem [THEN iffD1] ux)
  have md: "unat (((ucast x :: uint16) div 8 + 1) mod bw) = (unat x div 8 + 1) mod (unat W div 8)"
    by (simp add: unat_mod x1 ubw)
  have "(unat x div 8 + 1) mod (unat W div 8) < unat W div 8"
    using bpos by simp
  then have "unat ((ucast y :: uint16) * bw) + unat (((ucast x :: uint16) div 8 + 1) mod bw)
      < 2 ^ LENGTH(16)"
    using le bwb by (simp add: m md)
  then show "unat (ucast y * bw + (ucast x div 8 + 1) mod bw) =
           unat y * (unat W div 8) + (unat x div 8 + 1) mod (unat W div 8)"
    by (simp add: unat_add_lem [THEN iffD1] m md)
qed

lemma row_index_bounds:
  fixes W H x y :: nat
  assumes "8 dvd W" "8 \<le> W" "x < W" "y < H"
  shows "y * (W div 8) + x div 8 < W * H div 8"
    and "y * (W div 8) + (x div 8 + 1) mod (W div 8) < W * H div 8"
proof -
  from assms obtain b where b: "W = 8 * b" "0 < b" by (auto elim: dvdE)
  have xb: "x div 8 < b" using assms b by simp
  have "Suc y \<le> H" using assms(4) by simp
  then have "Suc y * b \<le> H * b" by (rule mult_le_mono1)
  then have yb: "y * b + b \<le> H * b" by simp
  have mb: "(x div 8 + 1) mod b < b" using b by simp
  have Wd: "W div 8 = b" and WH: "W * H div 8 = H * b" using b by (simp_all add: mult.commute)
  show "y * (W div 8) + x div 8 < W * H div 8"
    unfolding Wd WH using xb yb by linarith
  show "y * (W div 8) + (x div 8 + 1) mod (W div 8) < W * H div 8"
    unfolding Wd WH using mb yb by linarith
qed

lemma screen_set_frame [simp]:
  "screen_len (screen_set c i v) = screen_len c"
  "Width (screen_set c i v) = Width c"
  "Height (screen_set c i v) = Height c"
  "I (screen_set c i v) = I c"
  "V (screen_set c i v) = V c"
  by (simp_all add: screen_set_def screen_len_def split: slice.splits)

lemma setV_frame [simp]:
  "screen_len (setV c i v) = screen_len c"
  "Width (setV c i v) = Width c"
  "Height (setV c i v) = Height c"
  "I (setV c i v) = I c"
  "Memory (setV c i v) = Memory c"
  "Screen (setV c i v) = Screen c"
  by (simp_all add: setV_def screen_len_def)

lemma collision_frame [simp]:
  "screen_len (collision k o1 o2 i1 i2 bo m1 m2 c) = screen_len c \<and>
   Width (collision k o1 o2 i1 i2 bo m1 m2 c) = Width c \<and>
   Height (collision k o1 o2 i1 i2 bo m1 m2 c) = Height c \<and>
   I (collision k o1 o2 i1 i2 bo m1 m2 c) = I c \<and>
   Memory (collision k o1 o2 i1 i2 bo m1 m2 c) = Memory c \<and>
   Screen (collision k o1 o2 i1 i2 bo m1 m2 c) = Screen c"
proof (induction k o1 o2 i1 i2 bo m1 m2 c rule: collision.induct)
  case (1 k o1 o2 i1 i2 bo m1 m2 c)
  show ?case
    by (subst (1 2 3 4 5 6) collision.simps) (use 1 in \<open>auto simp: Let_def\<close>)
qed

lemma draw_row_frame:
  "draw_row off x y c = Some c' \<Longrightarrow>
   screen_len c' = screen_len c \<and> Width c' = Width c \<and> Height c' = Height c \<and> I c' = I c"
  by (auto simp: draw_row_def Let_def split: if_splits)

lemma draw_row_Some:
  assumes wf: "well_formed c" and x: "x < Width c" and y: "y < Height c"
  shows "\<exists>c'. draw_row off x y c = Some c'"
proof -
  have W: "8 dvd unat (Width c)" "8 \<le> unat (Width c)"
    and sl: "screen_len c = unat (Width c) * unat (Height c) div 8"
    using wf by (simp_all add: well_formed_def)
  have xy: "unat x < unat (Width c)" "unat y < unat (Height c)"
    using x y by (simp_all add: word_less_nat_alt)
  note ri = row_indices [OF W]
  note rb = row_index_bounds [OF W xy]
  show ?thesis
    unfolding draw_row_def Let_def using ri rb sl by simp
qed

lemma draw_rows_Some:
  assumes "well_formed c" "x < Width c" "y < Height c"
  shows "\<exists>c'. draw_rows n off x y c = Some c'"
  using assms
proof (induction n arbitrary: off y c)
  case 0
  then show ?case by simp
next
  case (Suc n)
  from draw_row_Some [OF Suc.prems] obtain c1 where c1: "draw_row off x y c = Some c1"
    by blast
  note fr = draw_row_frame [OF c1]
  have "well_formed c1" using wf_draw_row [OF c1] Suc.prems by simp
  moreover have "x < Width c1" using fr Suc.prems by simp
  moreover have "(y + 1) mod Height c1 < Height c1"
    using fr Suc.prems(3) by (intro word_mod_less_divisor) (auto simp: word_gt_0)
  ultimately show ?case using Suc.IH c1 by simp
qed

text \<open>
  The checks of FX33, FX55, FX65 and DXYN keep the indices of their arms inside the
  memory, in legacy mode too, where \<open>I\<close> itself is incremented: these arms read and
  write no byte out of range.
\<close>

lemma unat_plus_le:
  fixes a :: uint16
  shows "unat (a + of_nat i) \<le> unat a + i"
proof -
  have "unat (a + of_nat i) = (unat a + unat (of_nat i :: uint16)) mod 2 ^ LENGTH(16)"
    by (simp add: unat_word_ariths(1))
  also have "\<dots> \<le> unat a + unat (of_nat i :: uint16)" by (rule mod_less_eq_dividend)
  also have "unat (of_nat i :: uint16) \<le> i" by (simp add: unsigned_of_nat take_bit_nat_def)
  finally show ?thesis by simp
qed

lemma ld_index_in_range:
  fixes c :: Chip8 and x :: byte
  assumes "\<not> int (unat (I c)) + int (unat x) \<ge> int (length (Memory c))" and "i \<le> unat x"
  shows "unat (I c + of_nat i) < length (Memory c)"
  using assms unat_plus_le [of "I c" i] by linarith

lemma bcd_index_in_range:
  assumes "\<not> int (unat (I c)) + 2 \<ge> int (length (Memory c))"
  shows "unat (I c) < length (Memory c) \<and> unat (I c + 1) < length (Memory c) \<and>
         unat (I c + 2) < length (Memory c)"
proof -
  have "unat (I c + 1) \<le> unat (I c) + 1" "unat (I c + 2) \<le> unat (I c) + 2"
    using unat_plus_le [of "I c" 1] unat_plus_le [of "I c" 2] by simp_all
  with assms show ?thesis by linarith
qed

lemma sprite_index_in_range:
  fixes rows :: byte
  assumes "\<not> int (unat (I c)) + int (unat rows) - 1 \<ge> int (length (Memory c))" and "off < unat rows"
  shows "unat (I c) + off < length (Memory c)"
  using assms by linarith

lemma fetch_in_range_iff:
  fixes pc :: uint16
  assumes "length m \<le> 65535"
  shows "(unat pc \<le> unat (pc + 2) \<and> unat (pc + 2) \<le> length m) \<longleftrightarrow> unat pc + 2 \<le> length m"
proof -
  have b: "unat pc < 65536" using unsigned_less [of pc, where ?'a = nat] by simp
  have "unat (pc + 2) = (unat pc + 2) mod 65536"
    by (simp add: unat_word_ariths(1))
  then show ?thesis using b assms by (cases "unat pc + 2 < 65536") (auto simp: mod_if)
qed

lemma drw_no_panic:
  assumes "well_formed c"
  shows "drw X Y rows c \<noteq> Panic \<and> drw X Y rows c \<noteq> Hang"
proof -
  have W: "Width c \<noteq> 0" and H: "Height c \<noteq> 0"
    using assms by (auto simp: well_formed_def)
  have x: "V c ! X mod Width c < Width c" and y: "V c ! Y mod Height c < Height c"
    using W H by (simp_all add: word_mod_less_divisor word_gt_0)
  have "well_formed (setV c 0xF 0)" using assms by simp
  from draw_rows_Some [OF this, of "V c ! X mod Width c" "V c ! Y mod Height c" "unat rows" 0] x y
  obtain c' where "draw_rows (unat rows) 0 (V c ! X mod Width c) (V c ! Y mod Height c)
      (setV c 0xF 0) = Some c'"
    by auto
  then show ?thesis using W H by (simp add: drw_def Let_def fail_def)
qed

lemma run_Panic_iff:
  assumes "well_formed c"
  shows "run k rnd a c \<noteq> Hang \<and>
    (run k rnd a c = Panic \<longleftrightarrow> (k = Skp \<or> k = Sknp) \<and> 16 \<le> unat (V c ! opX c a))"
proof (cases k)
  case Sys
  with assms show ?thesis
    by (auto simp: ok_def fail_def cls_def ret_def well_formed_def)
next
  case Call
  with assms show ?thesis
    by (auto simp: ok_def fail_def call_def Let_def well_formed_def)
next
  case Drw
  with assms drw_no_panic show ?thesis by simp
next
  case Skp
  then show ?thesis by (auto simp: skp_def ok_def Let_def KeyFlags_def)
next
  case Sknp
  then show ?thesis by (auto simp: sknp_def ok_def Let_def KeyFlags_def)
qed (simp_all add: ok_def fail_def ld_bcd_def ld_set_memory_def ld_memory_def Let_def)

lemma fetch_exec_Panic_iff:
  assumes wf: "well_formed c"
  shows "fetch_exec now rnd c \<noteq> Hang \<and>
    (fetch_exec now rnd c = Panic \<longleftrightarrow>
       length (Memory c) < unat (PC c) + 2 \<or> key_out_of_range c)"
proof (cases "unat (PC c) + 2 \<le> length (Memory c)")
  case False
  moreover have "length (Memory c) \<le> 65535" using wf by (simp add: well_formed_def)
  ultimately show ?thesis
    using fetch_in_range_iff [of "Memory c" "PC c"] by (simp add: fetch_exec_def)
next
  case True
  have len: "length (Memory c) \<le> 65535" using wf by (simp add: well_formed_def)
  define a where "a = unat (PC c)"
  define c1 where "c1 = c\<lparr>PC := PC c + 2\<rparr>"
  define k where "k = Tick_switch (opcode0 c1 a) (opcode1 c1 a)"
  have wf1: "well_formed c1" using wf by (simp add: c1_def)
  note rp = run_Panic_iff [OF wf1, of k rnd a]
  have kor: "key_out_of_range c \<longleftrightarrow> (k = Skp \<or> k = Sknp) \<and> 16 \<le> unat (V c1 ! opX c1 a)"
    by (simp add: key_out_of_range_def k_def a_def c1_def opcode0_def opcode1_def opX_def Let_def)
  have fe: "fetch_exec now rnd c =
     (case run k rnd a c1 of
          Panic \<Rightarrow> Panic
        | Hang \<Rightarrow> Hang
        | Return (Some e) c2 evs \<Rightarrow> Return (Some e) c2 (OnUpdate # evs)
        | Return None c2 evs \<Rightarrow>
            (let t = (case lastTimerUpdate c2 of None \<Rightarrow> now | Some t \<Rightarrow> t) in
             case timers now t c2 (OnUpdate # evs) of
               None \<Rightarrow> Hang
             | Some (c3, evs') \<Rightarrow> Return None c3 evs'))"
    using True fetch_in_range_iff [OF len, of "PC c"]
    by (simp add: fetch_exec_def Let_def a_def c1_def k_def)
  show ?thesis
  proof (cases "run k rnd a c1")
    case Panic
    with rp kor fe True show ?thesis by simp
  next
    case Hang
    with rp show ?thesis by simp
  next
    case (Return e c2 evs)
    have pos: "0 < TimerInterval c2"
      using wf_run [OF wf1 Return] by (simp add: well_formed_def)
    define t where "t = (case lastTimerUpdate c2 of None \<Rightarrow> now | Some t \<Rightarrow> t)"
    obtain c3 evs' where tm: "timers now t c2 (OnUpdate # evs) = Some (c3, evs')"
      using timers_total [OF pos, of now t "OnUpdate # evs"] by blast
    have "\<exists>e' c' es. fetch_exec now rnd c = Return e' c' es"
      using fe Return tm by (cases e) (simp_all add: Let_def t_def)
    moreover have "\<not> key_out_of_range c"
      using rp kor Return by auto
    ultimately show ?thesis using True by auto
  qed
qed

lemma length_first_key [simp]: "length (first_key k changed r vs) = length vs"
proof (induction k changed r vs rule: first_key.induct)
  case (1 k changed r vs)
  show ?case
    by (subst first_key.simps) (use 1 in \<open>auto simp: Let_def\<close>)
qed

lemma wf_at_fetch: "well_formed c \<Longrightarrow> at_fetch c = Some c0 \<Longrightarrow> well_formed c0"
  by (auto simp: at_fetch_def well_formed_def stack_len_def screen_len_def
      split: option.splits if_splits)

lemma Tick_at_fetch:
  "well_formed c \<Longrightarrow>
   Tick now rnd c =
     (case at_fetch c of None \<Rightarrow> Return None c [OnUpdate] | Some c0 \<Rightarrow> fetch_exec now rnd c0)"
  by (auto simp: Tick_def at_fetch_def well_formed_def Let_def split: option.splits)

text \<open>
  C10.  A cycle of a well-formed machine always returns, and it panics exactly when it
  reaches the fetch and either the two bytes at \<open>PC\<close> do not lie in the memory
  (\<open>PC > len(Memory) - 2\<close>) or the opcode there is EX9E or EXA1 and \<open>V[X]\<close> is above
  \<open>0xF\<close>: with \<open>PC\<close> in range and \<open>V[X] \<le> 0xF\<close> at such an opcode the cycle returns
  nil or one of the errors, and otherwise the access out of range panics.
\<close>

theorem Tick_panics_exactly:
  assumes "well_formed c"
  shows "Tick now rnd c \<noteq> Hang \<and>
    (Tick now rnd c = Panic \<longleftrightarrow>
       (\<exists>c0. at_fetch c = Some c0 \<and>
          (length (Memory c0) < unat (PC c0) + 2 \<or> key_out_of_range c0)))"
proof (cases "at_fetch c")
  case None
  with assms show ?thesis by (simp add: Tick_at_fetch)
next
  case (Some c0)
  with assms have "well_formed c0" by (simp add: wf_at_fetch)
  from fetch_exec_Panic_iff [OF this, of now rnd] Some assms show ?thesis
    by (simp add: Tick_at_fetch)
qed

text \<open>Every cycle keeps the machine well-formed, and so do \<open>New\<close> and the loaders.\<close>

lemma wf_fetch_exec:
  assumes wf: "well_formed c" and r: "fetch_exec now rnd c = Return e c' evs"
  shows "well_formed c'"
proof -
  define a where "a = unat (PC c)"
  define c1 where "c1 = c\<lparr>PC := PC c + 2\<rparr>"
  define k where "k = Tick_switch (opcode0 c1 a) (opcode1 c1 a)"
  have wf1: "well_formed c1" using wf by (simp add: c1_def)
  from r obtain e2 c2 evs2 where run: "run k rnd a c1 = Return e2 c2 evs2"
    and rest: "(case e2 of Some e' \<Rightarrow> Return (Some e') c2 (OnUpdate # evs2)
        | None \<Rightarrow> (let t = (case lastTimerUpdate c2 of None \<Rightarrow> now | Some t \<Rightarrow> t) in
             case timers now t c2 (OnUpdate # evs2) of
               None \<Rightarrow> Hang
             | Some (c3, evs') \<Rightarrow> Return None c3 evs')) = Return e c' evs"
    unfolding fetch_exec_def Let_def a_def [symmetric] c1_def [symmetric] k_def [symmetric]
    by (auto split: if_splits result.splits option.splits)
  have wf2: "well_formed c2" using wf_run [OF wf1 run] .
  show ?thesis
  proof (cases e2)
    case (Some e')
    with rest wf2 show ?thesis by simp
  next
    case None
    define t where "t = (case lastTimerUpdate c2 of None \<Rightarrow> now | Some t \<Rightarrow> t)"
    have "0 < TimerInterval c2" using wf2 by (simp add: well_formed_def)
    from timers_total [OF this, of now t "OnUpdate # evs2"]
    obtain d s t' evs' where
      "timers now t c2 (OnUpdate # evs2) = Some (c2\<lparr>DT := d, ST := s, lastTimerUpdate := Some t'\<rparr>, evs')"
      by blast
    with rest None have "c' = c2\<lparr>DT := d, ST := s, lastTimerUpdate := Some t'\<rparr>"
      by (simp add: Let_def t_def)
    with wf2 show ?thesis by simp
  qed
qed

lemma wf_Tick:
  assumes "well_formed c" and "Tick now rnd c = Return e c' evs"
  shows "well_formed c'"
proof (cases "at_fetch c")
  case None
  with assms show ?thesis by (simp add: Tick_at_fetch)
next
  case (Some c0)
  with assms have "well_formed c0" and "fetch_exec now rnd c0 = Return e c' evs"
    by (simp_all add: wf_at_fetch Tick_at_fetch)
  then show ?thesis by (rule wf_fetch_exec)
qed

lemma length_copy [simp]: "length (copy dst src) = length dst"
  by (simp add: copy_def)

lemma wf_Load: "well_formed c \<Longrightarrow> Load c p = (e, c') \<Longrightarrow> well_formed c'"
  by (auto simp: Load_def well_formed_def stack_len_def screen_len_def split: if_splits)

lemma wf_LoadRaw: "well_formed c \<Longrightarrow> LoadRaw c p = Some c' \<Longrightarrow> well_formed c'"
  by (auto simp: LoadRaw_def well_formed_def stack_len_def screen_len_def split: if_splits)

lemma unat_pixels:
  fixes W H :: byte
  shows "unat ((ucast W :: uint16) * ucast H div 8) = unat W * unat H div 8"
proof -
  have "unat W * unat H \<le> 255 * 255"
    using unat_byte_less [of W] unat_byte_less [of H] by (intro mult_mono) simp_all
  then have "unat (ucast W :: uint16) * unat (ucast H :: uint16) < 2 ^ LENGTH(16)"
    by simp
  then have "unat ((ucast W :: uint16) * ucast H) = unat W * unat H"
    by (simp add: unat_mult_lem [THEN iffD1])
  then show ?thesis by (simp add: unat_div)
qed

lemma wf_New:
  assumes "New s = Some (Some (c, evs))"
  shows "well_formed c"
proof -
  from assms have v: "Validate s" by (auto simp: New_def split: if_splits)
  define W where "W = SWidth s"
  define H where "H = SHeight s"
  have "unat (W mod 8) = 0" using v by (simp add: Validate_def W_def)
  then have W8: "8 dvd unat W" by (simp add: unat_mod dvd_eq_mod_eq_0)
  have Wge: "8 \<le> unat W" using v by (simp add: Validate_def W_def word_less_nat_alt)
  have Hpos: "0 < unat H" using v by (simp add: Validate_def H_def word_less_nat_alt)
  note px = unat_pixels [of W H]
  have pb: "unat W * unat H div 8 \<le> 255 * 255 div 8"
    using unat_byte_less [of W] unat_byte_less [of H]
    by (intro div_le_mono mult_mono) simp_all
  have chi: "unat ((0xF00 :: uint16) + ucast W * ucast H div 8) = 0xF00 + unat W * unat H div 8"
  proof -
    have "unat (0xF00 :: uint16) + unat ((ucast W :: uint16) * ucast H div 8) < 2 ^ LENGTH(16)"
      using pb by (simp add: px)
    then show ?thesis by (simp add: unat_add_lem [THEN iffD1] px)
  qed
  have ms: "unat (MemorySize s) \<le> 65535"
    using unsigned_less [of "MemorySize s", where ?'a = nat] by simp
  show ?thesis
  proof (cases "Realistic s")
    case True
    with assms v show ?thesis
      using W8 Wge Hpos chi ms
      by (auto simp: New_def Let_def well_formed_def stack_len_def screen_len_def
          W_def H_def split: if_splits)
  next
    case False
    with assms v show ?thesis
      using W8 Wge Hpos px ms
      by (auto simp: New_def Let_def well_formed_def stack_len_def screen_len_def
          W_def H_def split: if_splits)
  qed
qed

lemma wf_default_machine: "default_machine p = Some c \<Longrightarrow> well_formed c"
  by (auto simp: default_machine_def split: option.splits prod.splits dest: wf_New wf_Load)

text \<open>
  On the default machine \<open>JP FFF\<close> returns nil; the next cycle fetches at \<open>0xFFF\<close>,
  one byte before the end of the 4096 bytes of memory, and panics; from \<open>0x200\<close> it
  would return.
\<close>

theorem Tick_panics_exactly_witness:
  "\<exists>c c1 evs1 c2 evs2. default_machine [0x1F, 0xFF] = Some c \<and> well_formed c \<and>
     Tick 0 0 c = Return None c1 evs1 \<and> well_formed c1 \<and> at_fetch c1 = Some c1 \<and>
     PC c1 = 0xFFF \<and> length (Memory c1) = 4096 \<and> Tick 0 0 c1 = Panic \<and>
     Tick 0 0 (c1\<lparr>PC := 0x200\<rparr>) = Return None c2 evs2"
proof -
  obtain c where dm: "default_machine [0x1F, 0xFF] = Some c"
    and len: "length (Memory c) = 4096"
    and prog: "\<forall>i < length [0x1F, 0xFF :: byte]. Memory c ! (512 + i) = [0x1F, 0xFF] ! i"
    and fields: "PC c = 0x200" "wii c = None" "TimerInterval c = 16666666"
      "lastTimerUpdate c = None"
    using default_machine_Some [of "[0x1F, 0xFF]"] by auto
  from prog [rule_format, of 0] prog [rule_format, of 1]
  have m: "Memory c ! 512 = 0x1F" "Memory c ! 513 = 0xFF"
    by simp_all
  have wf: "well_formed c" using dm by (rule wf_default_machine)
  define c1 where "c1 = c\<lparr>PC := 0xFFF, lastTimerUpdate := Some 0\<rparr>"
  have t1: "Tick 0 0 c = Return None c1 [OnUpdate]"
    by (simp add: tick_eval len m fields c1_def)
  have wf1: "well_formed c1" using wf by (simp add: c1_def)
  have af: "at_fetch c1 = Some c1" by (simp add: at_fetch_def c1_def fields)
  have "Tick 0 0 c1 = Panic"
    using Tick_panics_exactly [OF wf1, of 0 0] af by (simp add: c1_def len)
  moreover have "\<exists>c2 evs2. Tick 0 0 (c1\<lparr>PC := 0x200\<rparr>) = Return None c2 evs2"
    by (simp add: tick_eval len m fields c1_def)
  ultimately show ?thesis using dm wf t1 wf1 af by (auto simp: c1_def len)
qed

section \<open>Drawing a sprite twice\<close>

subsection \<open>Lists of XOR operations\<close>

lemma length_xor_at [simp]: "length (xor_at i m s) = length s"
  by (simp add: xor_at_def)

lemma length_paint [simp]: "length (paint ops s) = length s"
  by (induction ops s rule: paint.induct) simp_all

lemma xor_at_twice: "xor_at i m (xor_at i m s) = s"
  by (cases "i < length s") (simp_all add: xor_at_def xor.assoc list_update_beyond)

lemma xor_at_commute: "xor_at i m (xor_at j n s) = xor_at j n (xor_at i m s)"
proof (cases "i = j")
  case True
  then show ?thesis
    by (cases "i < length s")
       (simp_all add: xor_at_def xor.assoc xor.commute [of m n] list_update_beyond)
next
  case False
  then show ?thesis
    by (simp add: xor_at_def list_update_swap)
qed

lemma xor_at_paint: "xor_at i m (paint ops s) = paint ops (xor_at i m s)"
  by (induction ops s rule: paint.induct) (simp_all add: xor_at_commute)

lemma paint_twice: "paint ops (paint ops s) = s"
proof (induction ops arbitrary: s)
  case (Cons op ops)
  obtain i m where op: "op = (i, m)" by (cases op)
  have "paint (op # ops) (paint (op # ops) s) = paint ops (paint ops (xor_at i m (xor_at i m s)))"
    by (simp add: op xor_at_paint)
  then show ?case using Cons.IH by (simp add: xor_at_twice)
qed simp

lemma paint_append: "paint (ops @ ops') s = paint ops' (paint ops s)"
  by (induction ops s rule: paint.induct) simp_all

lemma clears_append: "clears (ops @ ops') s \<longleftrightarrow> clears ops s \<or> clears ops' (paint ops s)"
  by (induction ops s rule: clears.induct) auto

text \<open>Operations that turn no pixel off only add pixels.\<close>

lemma covers_refl: "covers s s"
  by (simp add: covers_def)

lemma covers_trans: "covers u t \<Longrightarrow> covers t s \<Longrightarrow> covers u s"
  unfolding covers_def
  by (metis (no_types, lifting) and.assoc)

lemma covers_xor_at:
  assumes "s ! i AND m = 0"
  shows "covers (xor_at i m s) s"
proof -
  have "(s ! i XOR m) AND s ! i = s ! i"
    using assms
    by (metis and.commute and.idem bit.conj_xor_distrib xor.commute xor_self_eq bit.conj_zero_right
        and.assoc xor.right_neutral)
  then have "xor_at i m s ! j AND s ! j = s ! j" if "j < length s" for j
    using that by (cases "j = i") (simp_all add: xor_at_def)
  then show ?thesis by (simp add: covers_def)
qed

lemma paint_covers: "\<not> clears ops s \<Longrightarrow> covers (paint ops s) s"
proof (induction ops s rule: paint.induct)
  case (2 i m ops s)
  then have "covers (paint ops (xor_at i m s)) (xor_at i m s)" and "covers (xor_at i m s) s"
    by (simp_all add: covers_xor_at)
  then show ?case by (auto intro: covers_trans)
qed (simp add: covers_refl)

lemma xor_at_zero [simp]: "xor_at i 0 s = s"
  by (simp add: xor_at_def)

lemma second_pass_clears:
  assumes "\<not> clears ops s" and "\<forall>(i, m) \<in> set ops. i < length s"
    and "\<exists>(i, m) \<in> set ops. m \<noteq> 0" and "covers t (paint ops s)"
  shows "clears ops t"
  using assms
proof (induction ops arbitrary: s t)
  case Nil
  then show ?case by simp
next
  case (Cons op ops)
  obtain i m where op: "op = (i, m)" by (cases op)
  from Cons.prems op have nc: "s ! i AND m = 0" "\<not> clears ops (xor_at i m s)"
    and il: "i < length s" and cov: "covers t (paint ops (xor_at i m s))"
    by simp_all
  show ?case
  proof (cases "m = 0")
    case True
    have "clears ops t"
    proof (rule Cons.IH)
      show "\<not> clears ops s" using nc True by simp
      show "\<forall>(i, m) \<in> set ops. i < length s" using Cons.prems(2) by simp
      show "\<exists>(i, m) \<in> set ops. m \<noteq> 0" using Cons.prems(3) op True by auto
      show "covers t (paint ops s)" using cov True by simp
    qed
    then show ?thesis using op True by simp
  next
    case False
    have "covers (paint ops (xor_at i m s)) (xor_at i m s)"
      using nc(2) by (rule paint_covers)
    with cov have "covers t (xor_at i m s)" by (rule covers_trans)
    then have "t ! i AND xor_at i m s ! i = xor_at i m s ! i"
      using il by (simp add: covers_def)
    then have a: "t ! i AND (s ! i XOR m) = s ! i XOR m"
      using il by (simp add: xor_at_def)
    have b: "(s ! i XOR m) AND m = m"
      using nc(1) by (metis and.commute bit.conj_xor_distrib2 and.idem xor.left_neutral)
    have "t ! i AND m = (t ! i AND (s ! i XOR m)) AND m"
      using b by (simp add: and.assoc)
    also have "\<dots> = m" using a b by simp
    finally show ?thesis using op False by simp
  qed
qed

lemma paint_again:
  assumes "\<not> clears ops s" and "\<forall>(i, m) \<in> set ops. i < length s"
    and "\<exists>(i, m) \<in> set ops. m \<noteq> 0"
  shows "paint ops (paint ops s) = s \<and> clears ops (paint ops s)"
  using assms second_pass_clears [OF assms covers_refl] by (simp add: paint_twice)

subsection \<open>The screen as a list\<close>

lemma length_pixels: "well_formed c \<Longrightarrow> length (pixels c) = screen_len c"
  by (cases "Screen c") (auto simp: well_formed_def pixels_def screen_len_def)

lemma screen_get_pixels:
  "well_formed c \<Longrightarrow> i < screen_len c \<Longrightarrow> screen_get c i = pixels c ! i"
  by (cases "Screen c") (auto simp: well_formed_def pixels_def screen_len_def screen_get_def)

lemma pixels_screen_set:
  "well_formed c \<Longrightarrow> i < screen_len c \<Longrightarrow> pixels (screen_set c i v) = (pixels c)[i := v]"
  by (cases "Screen c")
     (auto simp: well_formed_def pixels_def screen_len_def screen_set_def drop_update_swap
        take_update_swap)

lemma pixels_setV [simp]: "pixels (setV c i v) = pixels c"
  by (simp add: pixels_def setV_def cong: slice.case_cong)

text \<open>A write to the screen leaves a byte of memory outside the screen as it is.\<close>

lemma Memory_screen_set:
  "length (Memory (screen_set c i v)) = length (Memory c)"
  "Screen c = Own xs \<Longrightarrow> Memory (screen_set c i v) = Memory c"
  "Screen c = View off n \<Longrightarrow> i < n \<Longrightarrow> j < off \<or> off + n \<le> j \<Longrightarrow>
     Memory (screen_set c i v) ! j = Memory c ! j"
  "Screen c = View off n \<Longrightarrow> Screen (screen_set c i v) = View off n"
  by (auto simp: screen_set_def split: slice.splits)

lemma sprite_byte_screen_set:
  assumes "sprite_apart c n" "off < n" "i < screen_len c"
  shows "Memory (screen_set c i v) ! (unat (I c) + off) = Memory c ! (unat (I c) + off)"
proof (cases "Screen c")
  case (Own xs)
  then show ?thesis by (simp add: Memory_screen_set)
next
  case (View o len)
  with assms show ?thesis
    by (intro Memory_screen_set(3) [OF View]) (auto simp: sprite_apart_def screen_len_def)
qed

lemma sprite_apart_screen_set [simp]: "sprite_apart (screen_set c i v) n = sprite_apart c n"
  by (cases "Screen c") (simp_all add: sprite_apart_def screen_set_def)

lemma sprite_apart_setV [simp]: "sprite_apart (setV c i v) n = sprite_apart c n"
  by (simp add: sprite_apart_def setV_def cong: slice.case_cong)

subsection \<open>The collision test, bit by bit\<close>

lemma byte_bit_nonzero: "j \<le> 7 \<Longrightarrow> (2 :: byte) ^ j \<noteq> 0"
  by (simp add: exp_eq_zero_iff)

lemma single_bit_greater:
  fixes a b :: byte
  assumes "j \<le> 7"
  shows "a AND 2 ^ j > b AND 2 ^ j \<longleftrightarrow> bit a j \<and> \<not> bit b j"
  using byte_bit_nonzero [OF assms] by (auto simp: and_single_bit word_gt_0)

lemma byte_nonzero_iff: "(w :: byte) \<noteq> 0 \<longleftrightarrow> (\<exists>j\<le>7. bit w j)"
proof
  assume "w \<noteq> 0"
  then obtain j where j: "bit w j" by (auto simp: bit_eq_iff)
  then have "j < 8" using bit_imp_le_length [OF j] by simp
  with j show "\<exists>j\<le>7. bit w j" by (intro exI [of _ j]) simp
next
  assume "\<exists>j\<le>7. bit w j"
  then show "w \<noteq> 0" by auto
qed

lemma hit_iff:
  fixes old new A m1 :: byte
  assumes sub: "A AND m1 = A" and new: "new AND m1 = (old XOR A) AND m1"
  shows "(\<exists>j\<le>7. (old AND m1) AND 2 ^ j > new AND m1 AND 2 ^ j) \<longleftrightarrow> old AND A \<noteq> 0"
proof -
  have Am: "bit A j \<Longrightarrow> bit m1 j" for j
    using sub by (metis bit_and_iff)
  have "(\<exists>j\<le>7. (old AND m1) AND 2 ^ j > new AND m1 AND 2 ^ j) \<longleftrightarrow>
      (\<exists>j\<le>7. bit (old AND m1) j \<and> \<not> bit (new AND m1) j)"
    by (simp add: single_bit_greater and.assoc [symmetric] cong: conj_cong)
  also have "\<dots> \<longleftrightarrow> (\<exists>j\<le>7. bit (old AND A) j)"
    unfolding new using Am by (auto simp: bit_and_iff bit_xor_iff)
  finally show ?thesis by (simp add: byte_nonzero_iff)
qed

lemma drop_bit_submask: "drop_bit n (b :: byte) AND drop_bit n 0xFF = drop_bit n b"
proof -
  have "(0xFF :: byte) = - 1" by simp
  then have "drop_bit n b AND drop_bit n 0xFF = drop_bit n (b AND - 1)"
    by (simp only: drop_bit_and)
  then show ?thesis by simp
qed

lemma push_bit_apart:
  assumes "0 < n" "n < 8"
  shows "push_bit (8 - n) (b :: byte) AND drop_bit n 0xFF = 0"
proof (rule bit_eqI)
  fix k
  assume "possible_bit TYPE(byte) k"
  have "\<not> (bit (push_bit (8 - n) b) k \<and> bit (drop_bit n (0xFF :: byte)) k)"
  proof
    assume a: "bit (push_bit (8 - n) b) k \<and> bit (drop_bit n (0xFF :: byte)) k"
    then have "8 - n \<le> k" by (simp add: bit_push_bit_iff)
    moreover from a have "bit (0xFF :: byte) (n + k)" by (simp add: bit_drop_bit_eq)
    then have "n + k < 8" using bit_imp_le_length by fastforce
    ultimately show False using assms by simp
  qed
  then show "bit (push_bit (8 - n) b AND drop_bit n 0xFF) k \<longleftrightarrow> bit (0 :: byte) k"
    by (simp add: bit_and_iff)
qed

lemma and_not_self:
  assumes "(x :: byte) AND m = 0"
  shows "x AND NOT m = x"
proof (rule bit_eqI)
  fix k
  have "bit (x AND m) k = bit (0 :: byte) k" using assms by simp
  then have "\<not> (bit x k \<and> bit m k)" by (simp add: bit_and_iff)
  then show "bit (x AND NOT m) k \<longleftrightarrow> bit x k"
    by (auto simp: bit_and_iff bit_not_iff dest: bit_imp_possible_bit)
qed

lemma row_nonzero:
  fixes b :: byte
  assumes "b \<noteq> 0" "n < 8"
  shows "drop_bit n b \<noteq> 0 \<or> (n \<noteq> 0 \<and> push_bit (8 - n) b \<noteq> 0)"
proof (cases "drop_bit n b = 0")
  case True
  from assms(1) obtain j where j: "bit b j" by (auto simp: bit_eq_iff)
  then have j8: "j < 8" using bit_imp_le_length [OF j] by simp
  have jn: "j < n"
  proof (rule ccontr)
    assume "\<not> j < n"
    then have "bit (drop_bit n b) (j - n)" using j by (simp add: bit_drop_bit_eq)
    with True show False by simp
  qed
  have "8 - n \<le> j + (8 - n)" "j + (8 - n) < 8" "j + (8 - n) - (8 - n) = j"
    using jn assms(2) by arith+
  then have "bit (push_bit (8 - n) b) (j + (8 - n))"
    using j by (simp add: bit_push_bit_iff)
  then have "push_bit (8 - n) b \<noteq> 0" by auto
  with jn show ?thesis by simp
qed simp

lemma unat_8_minus:
  fixes x :: byte
  assumes "x mod 8 \<noteq> 0"
  shows "unat (8 - x mod 8) = 8 - unat (x mod 8)" and "0 < unat (x mod 8)" and "unat (x mod 8) < 8"
proof -
  have u: "unat (x mod 8) = unat x mod 8" by (simp add: unat_mod)
  then show lt: "unat (x mod 8) < 8" by simp
  show "0 < unat (x mod 8)" using assms by (simp add: unat_gt_0)
  have "x mod 8 \<le> 8" using lt by (simp add: word_le_nat_alt)
  then show "unat (8 - x mod 8) = 8 - unat (x mod 8)"
    by (simp add: unat_sub)
qed

lemma ex_from_next:
  "\<not> P k \<Longrightarrow> (\<exists>j. k + 1 \<le> j \<and> j \<le> n \<and> P j) \<longleftrightarrow> (\<exists>j. k \<le> j \<and> j \<le> (n :: nat) \<and> P j)"
proof -
  assume nk: "\<not> P k"
  show ?thesis
  proof
    assume "\<exists>j. k + 1 \<le> j \<and> j \<le> n \<and> P j"
    then obtain j where "k + 1 \<le> j" "j \<le> n" "P j" by blast
    then have "k \<le> j \<and> j \<le> n \<and> P j" by simp
    then show "\<exists>j. k \<le> j \<and> j \<le> n \<and> P j" ..
  next
    assume "\<exists>j. k \<le> j \<and> j \<le> n \<and> P j"
    then obtain j where j: "k \<le> j" "j \<le> n" "P j" by blast
    with nk have "j \<noteq> k" by auto
    with j have "k + 1 \<le> j \<and> j \<le> n \<and> P j" by simp
    then show "\<exists>j. k + 1 \<le> j \<and> j \<le> n \<and> P j" ..
  qed
qed

lemma collision_closed:
  assumes "k \<le> 7"
  shows "collision k o1 o2 i1 i2 bo m1 m2 c =
    (if V c ! 0xF \<noteq> 0 then c
     else if \<exists>j. k \<le> j \<and> j \<le> 7 \<and>
         (o1 AND 2 ^ j > screen_get c i1 AND m1 AND 2 ^ j \<or>
          bo \<noteq> 0 \<and> o2 AND 2 ^ j > screen_get c i2 AND m2 AND 2 ^ j)
       then setV c 0xF 1 else c)"
  using assms
proof (induction k o1 o2 i1 i2 bo m1 m2 c rule: collision.induct)
  case (1 k o1 o2 i1 i2 bo m1 m2 c)
  define hit where "hit j \<longleftrightarrow> (o1 AND 2 ^ j > screen_get c i1 AND m1 AND 2 ^ j \<or>
          bo \<noteq> 0 \<and> o2 AND 2 ^ j > screen_get c i2 AND m2 AND 2 ^ j)" for j
  have unfold: "collision k o1 o2 i1 i2 bo m1 m2 c =
     (if \<not> V c ! 0xF = 0 then c
      else if hit k then setV c 0xF 1
      else if 7 \<le> k then c
      else collision (k + 1) o1 o2 i1 i2 bo m1 m2 c)"
    by (subst collision.simps) (auto simp: hit_def Let_def)
  define E where "E \<longleftrightarrow> (\<exists>j. k \<le> j \<and> j \<le> 7 \<and> hit j)"
  have "collision k o1 o2 i1 i2 bo m1 m2 c =
    (if V c ! 0xF \<noteq> 0 then c else if E then setV c 0xF 1 else c)"
  proof (cases "V c ! 0xF \<noteq> 0")
    case True
    then show ?thesis by (simp add: unfold)
  next
    case vf: False
    show ?thesis
    proof (cases "hit k")
      case True
      then have E unfolding E_def using "1.prems" by auto
      then show ?thesis using vf True by (simp add: unfold)
    next
      case nh: False
      show ?thesis
      proof (cases "7 \<le> k")
        case True
        then have "k = 7" using "1.prems" by simp
        then have "\<not> E" unfolding E_def using nh by auto
        then show ?thesis using vf nh True by (simp add: unfold)
      next
        case False
        have "collision (k + 1) o1 o2 i1 i2 bo m1 m2 c =
            (if \<exists>j. k + 1 \<le> j \<and> j \<le> 7 \<and> hit j then setV c 0xF 1 else c)"
          using "1.IH" [OF _ refl] vf nh False unfolding hit_def by simp
        also have "(\<exists>j. k + 1 \<le> j \<and> j \<le> 7 \<and> hit j) \<longleftrightarrow> E"
          unfolding E_def using nh by (rule ex_from_next)
        finally show ?thesis
          using vf nh False by (simp add: unfold)
      qed
    qed
  qed
  then show ?case unfolding E_def hit_def .
qed

subsection \<open>One row\<close>

lemma V_setV [simp]: "V (setV c i v) = (V c)[i := v]"
  by (simp add: setV_def)

text \<open>What \<open>draw_row\<close> does, in terms of the operations of the row.\<close>

lemma draw_row_ops:
  assumes wf: "well_formed c" and x: "x < Width c" and y: "y < Height c"
    and apart: "sprite_apart c n" and off: "off < n"
  defines "b \<equiv> Memory c ! (unat (I c) + off)"
  defines "ops \<equiv> row_ops (Width c) x y b"
  shows "\<exists>c'. draw_row off x y c = Some c' \<and>
      pixels c' = paint ops (pixels c) \<and>
      V c' = (if V c ! 0xF = 0 \<and> clears ops (pixels c) then (V c)[0xF := 1] else V c) \<and>
      (\<forall>(i, m) \<in> set ops. i < length (pixels c)) \<and>
      sprite_apart c' n \<and> (\<forall>k<n. Memory c' ! (unat (I c) + k) = Memory c ! (unat (I c) + k)) \<and>
      length (Memory c') = length (Memory c)"
proof -
  have W: "8 dvd unat (Width c)" "8 \<le> unat (Width c)"
    and sl: "screen_len c = unat (Width c) * unat (Height c) div 8"
    using wf by (simp_all add: well_formed_def)
  have xy: "unat x < unat (Width c)" "unat y < unat (Height c)"
    using x y by (simp_all add: word_less_nat_alt)
  note ri = row_indices [OF W]
  note rb = row_index_bounds [OF W xy]
  define bw where "bw = unat (Width c) div 8"
  define idx where "idx = unat y * bw + unat x div 8"
  define nidx where "nidx = unat y * bw + (unat x div 8 + 1) mod bw"
  define bo where "bo = unat (x mod 8)"
  define A where "A = drop_bit bo b"
  define B where "B = push_bit (8 - bo) b"
  define m1 where "m1 = drop_bit bo (0xFF :: byte)"
  have il: "idx < screen_len c" and nl: "nidx < screen_len c"
    using rb sl by (simp_all add: idx_def nidx_def bw_def)
  define s where "s = pixels c"
  have ls: "length s = screen_len c" by (simp add: s_def length_pixels wf)
  define c1 where "c1 = screen_set c idx (screen_get c idx XOR A)"
  have wf1: "well_formed c1" using wf by (simp add: c1_def)
  have p1: "pixels c1 = xor_at idx A s"
    using wf il by (simp add: c1_def pixels_screen_set screen_get_pixels xor_at_def s_def)
  have b1: "Memory c1 ! (unat (I c1) + off) = b"
    using sprite_byte_screen_set [OF apart off il] by (simp add: c1_def b_def)
  have sl1: "screen_len c1 = screen_len c" by (simp add: c1_def)
  have ap1: "sprite_apart c1 n" by (simp add: c1_def apart)
  have I1: "I c1 = I c" by (simp add: c1_def)
  have len1: "length (Memory c1) = length (Memory c)" by (simp add: c1_def Memory_screen_set(1))
  have mem1: "\<forall>k<n. Memory c1 ! (unat (I c) + k) = Memory c ! (unat (I c) + k)"
    using sprite_byte_screen_set [OF apart _ il] by (simp add: c1_def)
  have V1: "V c1 = V c" by (simp add: c1_def)
  have opsA: "ops = (idx, A) # (if bo \<noteq> 0 then [(nidx, B)] else [])"
    by (simp add: ops_def row_ops_def Let_def idx_def nidx_def bw_def bo_def A_def B_def)
  have Am: "A AND m1 = A" by (simp add: A_def m1_def drop_bit_submask)
  show ?thesis
  proof (cases "bo = 0")
    case True
    then have x0: "x mod 8 = 0" by (simp add: bo_def unat_eq_zero)
    have dr: "draw_row off x y c = Some (collision 0 (screen_get c idx AND m1) 0 idx nidx 0 m1 (NOT m1) c1)"
      using ri il x0 True
      by (simp add: draw_row_def Let_def idx_def nidx_def bw_def c1_def A_def m1_def b_def bo_def)
    have hit: "(\<exists>j. 0 \<le> j \<and> j \<le> 7 \<and> ((screen_get c idx AND m1) AND 2 ^ j > screen_get c1 idx AND m1 AND 2 ^ j
          \<or> (0 :: byte) \<noteq> 0 \<and> (0 :: byte) AND 2 ^ j > screen_get c1 nidx AND NOT m1 AND 2 ^ j))
        \<longleftrightarrow> s ! idx AND A \<noteq> 0"
    proof -
      have "screen_get c1 idx AND m1 = (s ! idx XOR A) AND m1"
        using wf1 il sl1 ls by (simp add: screen_get_pixels p1 xor_at_def)
      from hit_iff [OF Am this] show ?thesis
        using wf il by (simp add: screen_get_pixels s_def)
    qed
    have cl: "clears ops s \<longleftrightarrow> s ! idx AND A \<noteq> 0" using True by (simp add: opsA)
    have pt: "paint ops s = xor_at idx A s" using True by (simp add: opsA)
    show ?thesis
      unfolding dr s_def [symmetric]
      using hit cl pt p1 V1 il ls True ap1 mem1 len1
      by (auto simp: collision_closed opsA)
  next
    case False
    have x0: "x mod 8 \<noteq> 0"
    proof
      assume "x mod 8 = 0"
      then have "bo = 0" by (simp only: bo_def unsigned_0)
      with False show False ..
    qed
    note u8 = unat_8_minus [OF x0]
    define c2 where "c2 = screen_set c1 nidx (screen_get c1 nidx XOR B)"
    have wf2: "well_formed c2" using wf1 by (simp add: c2_def)
    have p2: "pixels c2 = xor_at nidx B (xor_at idx A s)"
      using wf1 nl sl1 by (simp add: c2_def pixels_screen_set screen_get_pixels xor_at_def p1)
    have V2: "V c2 = V c" by (simp add: c2_def V1)
    have sl2: "screen_len c2 = screen_len c" by (simp add: c2_def sl1)
    have ap2: "sprite_apart c2 n" by (simp add: c2_def ap1)
    have len2: "length (Memory c2) = length (Memory c)"
      by (simp add: c2_def Memory_screen_set(1) len1)
    have mem2: "\<forall>k<n. Memory c2 ! (unat (I c) + k) = Memory c ! (unat (I c) + k)"
      using sprite_byte_screen_set [OF ap1, of _ nidx] nl sl1 mem1 I1 by (simp add: c2_def)
    have dr: "draw_row off x y c =
        Some (collision 0 (screen_get c idx AND m1) (screen_get c1 nidx AND NOT m1) idx nidx
          (x mod 8) m1 (NOT m1) c2)"
      using ri il nl x0 sl1 b1 u8
      by (simp add: draw_row_def Let_def idx_def nidx_def bw_def c1_def A_def m1_def
          b_def bo_def c2_def B_def)
    have Bm1: "B AND m1 = 0"
      using u8 by (simp add: B_def m1_def bo_def push_bit_apart)
    then have Bm: "B AND NOT m1 = B" by (rule and_not_self)
    have hitA: "(\<exists>j\<le>7. (screen_get c idx AND m1) AND 2 ^ j > screen_get c2 idx AND m1 AND 2 ^ j)
        \<longleftrightarrow> s ! idx AND A \<noteq> 0"
    proof -
      have "screen_get c2 idx = xor_at nidx B (xor_at idx A s) ! idx"
        using wf2 il sl2 by (simp add: screen_get_pixels p2)
      also have "\<dots> AND m1 = (s ! idx XOR A) AND m1"
        using il nl ls Bm1
        by (cases "nidx = idx") (simp_all add: xor_at_def bit.conj_xor_distrib2)
      finally have "screen_get c2 idx AND m1 = (s ! idx XOR A) AND m1" .
      from hit_iff [OF Am this] show ?thesis
        using wf il by (simp add: screen_get_pixels s_def)
    qed
    have hitB: "(\<exists>j\<le>7. (screen_get c1 nidx AND NOT m1) AND 2 ^ j > screen_get c2 nidx AND NOT m1 AND 2 ^ j)
        \<longleftrightarrow> xor_at idx A s ! nidx AND B \<noteq> 0"
    proof -
      have "screen_get c2 nidx AND NOT m1 = (xor_at idx A s ! nidx XOR B) AND NOT m1"
        using wf2 nl sl2 ls by (simp add: screen_get_pixels p2 xor_at_def)
      from hit_iff [OF Bm this] show ?thesis
        using wf1 nl sl1 by (simp add: screen_get_pixels p1)
    qed
    have hit: "(\<exists>j. 0 \<le> j \<and> j \<le> 7 \<and>
          ((screen_get c idx AND m1) AND 2 ^ j > screen_get c2 idx AND m1 AND 2 ^ j \<or>
           x mod 8 \<noteq> 0 \<and>
           (screen_get c1 nidx AND NOT m1) AND 2 ^ j > screen_get c2 nidx AND NOT m1 AND 2 ^ j))
        \<longleftrightarrow> s ! idx AND A \<noteq> 0 \<or> xor_at idx A s ! nidx AND B \<noteq> 0"
      using hitA hitB x0 by auto
    have cl: "clears ops s \<longleftrightarrow> s ! idx AND A \<noteq> 0 \<or> xor_at idx A s ! nidx AND B \<noteq> 0"
      using False by (simp add: opsA)
    have pt: "paint ops s = xor_at nidx B (xor_at idx A s)" using False by (simp add: opsA)
    show ?thesis
      unfolding dr s_def [symmetric]
      using hit cl pt p2 V2 il nl ls False ap2 mem2 len2
      by (auto simp: collision_closed opsA)
  qed
qed

subsection \<open>The rows of a sprite\<close>

lemma draw_rows_ops:
  assumes "well_formed c" "x < Width c" "y < Height c" "sprite_apart c n" "off + k \<le> n"
  shows "\<exists>c'. draw_rows k off x y c = Some c' \<and>
      pixels c' =
        paint (sprite_ops (Width c) (Height c) x y
                 (map (\<lambda>j. Memory c ! (unat (I c) + j)) [off..<off + k])) (pixels c) \<and>
      V c' =
        (if V c ! 0xF = 0 \<and>
            clears (sprite_ops (Width c) (Height c) x y
                      (map (\<lambda>j. Memory c ! (unat (I c) + j)) [off..<off + k])) (pixels c)
         then (V c)[0xF := 1] else V c) \<and>
      (\<forall>(i, m) \<in> set (sprite_ops (Width c) (Height c) x y
                        (map (\<lambda>j. Memory c ! (unat (I c) + j)) [off..<off + k])).
         i < length (pixels c)) \<and>
      well_formed c' \<and> Width c' = Width c \<and> Height c' = Height c \<and> I c' = I c \<and>
      sprite_apart c' n \<and> (\<forall>j<n. Memory c' ! (unat (I c) + j) = Memory c ! (unat (I c) + j)) \<and>
      length (Memory c') = length (Memory c)"
  using assms
proof (induction k arbitrary: off y c)
  case 0
  then show ?case by simp
next
  case (Suc k)
  define W where "W = Width c"
  define H where "H = Height c"
  define b where "b = Memory c ! (unat (I c) + off)"
  define ops1 where "ops1 = row_ops W x y b"
  define s where "s = pixels c"
  have offn: "off < n" using Suc.prems(5) by simp
  from draw_row_ops [OF Suc.prems(1-4) offn]
  obtain c1 where dr: "draw_row off x y c = Some c1"
    and p1: "pixels c1 = paint ops1 s"
    and V1: "V c1 = (if V c ! 0xF = 0 \<and> clears ops1 s then (V c)[0xF := 1] else V c)"
    and i1: "\<forall>(i, m) \<in> set ops1. i < length s"
    and ap1: "sprite_apart c1 n"
    and mem1: "\<forall>j<n. Memory c1 ! (unat (I c) + j) = Memory c ! (unat (I c) + j)"
    and len1: "length (Memory c1) = length (Memory c)"
    unfolding ops1_def b_def W_def s_def by blast
  have wf1: "well_formed c1" using wf_draw_row [OF dr] Suc.prems(1) by simp
  note fr = draw_row_frame [OF dr]
  have W1: "Width c1 = W" and H1: "Height c1 = H" and I1: "I c1 = I c"
    using fr by (simp_all add: W_def H_def)
  define y' where "y' = (y + 1) mod H"
  have y': "y' < Height c1"
    unfolding y'_def H1 using Suc.prems(3) by (intro word_mod_less_divisor) (auto simp: word_gt_0 H_def)
  have x1: "x < Width c1" using Suc.prems(2) by (simp add: W1 W_def)
  have offk: "off + 1 + k \<le> n" using Suc.prems(5) by simp
  define bs where "bs = map (\<lambda>j. Memory c ! (unat (I c) + j)) [off + 1..<off + 1 + k]"
  have bs1: "map (\<lambda>j. Memory c1 ! (unat (I c1) + j)) [off + 1..<off + 1 + k] = bs"
    unfolding bs_def
  proof (rule map_cong [OF refl])
    fix j
    assume "j \<in> set [off + 1..<off + 1 + k]"
    then have "j < n" using offk by auto
    then show "Memory c1 ! (unat (I c1) + j) = Memory c ! (unat (I c) + j)"
      using mem1 I1 by simp
  qed
  define ops2 where "ops2 = sprite_ops W H x y' bs"
  from Suc.IH [OF wf1 x1 y' ap1 offk]
  obtain c2 where drs: "draw_rows k (off + 1) x y' c1 = Some c2"
    and p2: "pixels c2 = paint ops2 (pixels c1)"
    and V2: "V c2 = (if V c1 ! 0xF = 0 \<and> clears ops2 (pixels c1) then (V c1)[0xF := 1] else V c1)"
    and i2: "\<forall>(i, m) \<in> set ops2. i < length (pixels c1)"
    and rest: "well_formed c2" "Width c2 = Width c1" "Height c2 = Height c1" "I c2 = I c1"
      "sprite_apart c2 n" "\<forall>j<n. Memory c2 ! (unat (I c1) + j) = Memory c1 ! (unat (I c1) + j)"
      "length (Memory c2) = length (Memory c1)"
    unfolding bs1 W1 H1 ops2_def by blast
  have all: "sprite_ops W H x y (map (\<lambda>j. Memory c ! (unat (I c) + j)) [off..<off + Suc k])
      = ops1 @ ops2"
  proof -
    have "[off..<off + Suc k] = off # [off + 1..<off + 1 + k]"
      using upt_conv_Cons [of off "off + Suc k"] by simp
    then show ?thesis
      by (simp only: list.map sprite_ops.simps ops1_def ops2_def b_def bs_def y'_def)
  qed
  have step: "draw_rows (Suc k) off x y c = Some c2"
    using dr drs by (simp add: y'_def H1)
  have lenV: "length (V c) = 16" using Suc.prems(1) by (simp add: well_formed_def)
  have V: "V c2 = (if V c ! 0xF = 0 \<and> clears (ops1 @ ops2) s then (V c)[0xF := 1] else V c)"
    using V1 V2 lenV by (auto simp: clears_append p1)
  have idx: "\<forall>(i, m) \<in> set (ops1 @ ops2). i < length s"
    using i1 i2 by (auto simp: p1)
  show ?case
    unfolding W_def [symmetric] H_def [symmetric] s_def [symmetric] all
    using step p2 V idx rest mem1 len1 W1 H1 I1
    by (simp add: p1 paint_append)
qed

subsection \<open>The instruction\<close>

lemma row_ops_nonzero:
  assumes "b \<noteq> 0"
  shows "\<exists>(i, m) \<in> set (row_ops W x y b). m \<noteq> 0"
proof -
  have "unat (x mod 8) < 8" by (simp add: unat_mod)
  from row_nonzero [OF assms this] show ?thesis
    by (auto simp: row_ops_def Let_def)
qed

lemma sprite_ops_nonzero:
  "\<exists>b \<in> set bs. b \<noteq> 0 \<Longrightarrow> \<exists>(i, m) \<in> set (sprite_ops W H x y bs). m \<noteq> 0"
proof (induction bs arbitrary: y)
  case (Cons b bs)
  show ?case
  proof (cases "b = 0")
    case True
    with Cons.prems have "\<exists>b \<in> set bs. b \<noteq> 0" by simp
    from Cons.IH [OF this, of "(y + 1) mod H"] show ?thesis by auto
  next
    case False
    from row_ops_nonzero [OF this, of W x y] show ?thesis by auto
  qed
qed simp

text \<open>A draw that returns nil, in terms of the operations of its sprite.\<close>

lemma drw_ops:
  assumes wf: "well_formed c" and apart: "sprite_apart c (unat rows)"
    and d: "drw X Y rows c = Return e c' evs" and e: "e = None"
  defines "ops \<equiv> sprite_ops (Width c) (Height c) (V c ! X mod Width c) (V c ! Y mod Height c)
      (map (\<lambda>j. Memory c ! (unat (I c) + j)) [0..<unat rows])"
  shows "pixels c' = paint ops (pixels c)"
    and "V c' = (V c)[0xF := (if clears ops (pixels c) then 1 else 0)]"
    and "\<forall>(i, m) \<in> set ops. i < length (pixels c)"
    and "well_formed c'" and "Width c' = Width c" and "Height c' = Height c" and "I c' = I c"
    and "sprite_apart c' (unat rows)"
    and "\<forall>j < unat rows. Memory c' ! (unat (I c) + j) = Memory c ! (unat (I c) + j)"
    and "length (Memory c') = length (Memory c)"
    and "evs = [UpdateScreen]"
    and "\<not> 0xFFFF - I c < ucast rows"
    and "\<not> int (unat (I c)) + int (unat rows) - 1 \<ge> int (length (Memory c))"
proof -
  have W: "Width c \<noteq> 0" and H: "Height c \<noteq> 0" and lenV: "length (V c) = 16"
    using wf by (auto simp: well_formed_def)
  define x where "x = V c ! X mod Width c"
  define y where "y = V c ! Y mod Height c"
  have x: "x < Width (setV c 0xF 0)" and y: "y < Height (setV c 0xF 0)"
    using W H by (simp_all add: x_def y_def word_mod_less_divisor word_gt_0)
  have wf0: "well_formed (setV c 0xF 0)" using wf by simp
  have ap0: "sprite_apart (setV c 0xF 0) (unat rows)" using apart by simp
  from draw_rows_ops [OF wf0 x y ap0, of 0 "unat rows"]
  obtain c1 where dr: "draw_rows (unat rows) 0 x y (setV c 0xF 0) = Some c1"
    and p: "pixels c1 = paint ops (pixels c)"
    and V: "V c1 = (if (V c)[0xF := 0] ! 0xF = 0 \<and> clears ops (pixels c)
        then ((V c)[0xF := 0])[0xF := 1] else (V c)[0xF := 0])"
    and i: "\<forall>(i, m) \<in> set ops. i < length (pixels c)"
    and rest: "well_formed c1" "Width c1 = Width c" "Height c1 = Height c" "I c1 = I c"
      "sprite_apart c1 (unat rows)"
      "\<forall>j < unat rows. Memory c1 ! (unat (I c) + j) = Memory c ! (unat (I c) + j)"
      "length (Memory c1) = length (Memory c)"
    unfolding ops_def x_def y_def by (auto simp: )
  from d e dr W H have c': "c' = c1" and ev: "evs = [UpdateScreen]"
    and chk: "\<not> 0xFFFF - I c < ucast rows"
      "\<not> int (unat (I c)) + int (unat rows) - 1 \<ge> int (length (Memory c))"
    by (auto simp: drw_def Let_def fail_def x_def y_def split: if_splits)
  show "pixels c' = paint ops (pixels c)" using p c' by simp
  show "V c' = (V c)[0xF := (if clears ops (pixels c) then 1 else 0)]"
    using V c' lenV by simp
  show "\<forall>(i, m) \<in> set ops. i < length (pixels c)" by (rule i)
  show "well_formed c'" "Width c' = Width c" "Height c' = Height c" "I c' = I c"
    "sprite_apart c' (unat rows)"
    "\<forall>j < unat rows. Memory c' ! (unat (I c) + j) = Memory c ! (unat (I c) + j)"
    "length (Memory c') = length (Memory c)"
    using rest c' by simp_all
  show "evs = [UpdateScreen]" by (rule ev)
  show "\<not> 0xFFFF - I c < ucast rows"
    "\<not> int (unat (I c)) + int (unat rows) - 1 \<ge> int (length (Memory c))"
    using chk by simp_all
qed

lemma drw_returns:
  assumes wf: "well_formed c"
    and "\<not> 0xFFFF - I c < ucast rows"
    and "\<not> int (unat (I c)) + int (unat rows) - 1 \<ge> int (length (Memory c))"
  shows "\<exists>c'. drw X Y rows c = Return None c' [UpdateScreen]"
  using drw_no_panic [OF wf, of X Y rows] assms(2,3) wf
  by (auto simp: drw_def Let_def well_formed_def split: option.splits if_splits)

text \<open>
  Whatever the screen holds, a second draw of the same sprite at the same coordinates
  returns nil and leaves the screen as it was before the first.
\<close>

lemma draw_twice_restores:
  assumes wf: "well_formed c"
    and first: "drw X Y rows c = Return None c1 evs1"
    and apart: "sprite_apart c (unat rows)"
    and same: "V c1 ! X mod Width c = V c ! X mod Width c"
      "V c1 ! Y mod Height c = V c ! Y mod Height c"
  shows "\<exists>c2. drw X Y rows c1 = Return None c2 [UpdateScreen] \<and> pixels c2 = pixels c"
proof -
  define bs where "bs = map (\<lambda>j. Memory c ! (unat (I c) + j)) [0..<unat rows]"
  define ops where "ops = sprite_ops (Width c) (Height c) (V c ! X mod Width c)
      (V c ! Y mod Height c) bs"
  note d1 = drw_ops [OF wf apart first refl, folded bs_def, folded ops_def]
  have bs1: "map (\<lambda>j. Memory c1 ! (unat (I c1) + j)) [0..<unat rows] = bs"
    unfolding bs_def using d1(7,9) by (intro map_cong refl) simp
  from d1(7,10,12,13) have chk: "\<not> 0xFFFF - I c1 < ucast rows"
    "\<not> int (unat (I c1)) + int (unat rows) - 1 \<ge> int (length (Memory c1))"
    by simp_all
  from drw_returns [OF d1(4) chk]
  obtain c2 where second: "drw X Y rows c1 = Return None c2 [UpdateScreen]" by blast
  have ops1: "sprite_ops (Width c1) (Height c1) (V c1 ! X mod Width c1) (V c1 ! Y mod Height c1)
      (map (\<lambda>j. Memory c1 ! (unat (I c1) + j)) [0..<unat rows]) = ops"
    unfolding bs1 ops_def using d1(5,6) same by simp
  note d2 = drw_ops [OF d1(4) d1(8) second refl, unfolded ops1]
  have "pixels c2 = pixels c" using d2(1) d1(1) by (simp add: paint_twice)
  then show ?thesis using second by simp
qed

subsection \<open>Sprites whose pixels are off\<close>

lemma all_off_simps [simp]:
  "all_off [] s" "all_off ((i, m) # ops) s \<longleftrightarrow> s ! i AND m = 0 \<and> all_off ops s"
  by (simp_all add: all_off_def)

lemma all_on_simps [simp]:
  "all_on [] s" "all_on ((i, m) # ops) s \<longleftrightarrow> s ! i AND m = m \<and> all_on ops s"
  by (simp_all add: all_on_def)

lemma nth_xor_at: "xor_at i m s ! j = (if j = i \<and> i < length s then s ! i XOR m else s ! j)"
  by (cases "i < length s") (auto simp: xor_at_def list_update_beyond)

lemma all_off_xor_at:
  assumes "all_off ops s" and "list_all (\<lambda>(j, n). i = j \<longrightarrow> m AND n = 0) ops"
  shows "all_off ops (xor_at i m s)"
  using assms by (induction ops) (auto simp: nth_xor_at bit.conj_xor_distrib2)

lemma off_not_clears: "all_off ops s \<Longrightarrow> apart_ops ops \<Longrightarrow> \<not> clears ops s"
proof (induction ops arbitrary: s)
  case (Cons op ops)
  obtain i m where op: "op = (i, m)" by (cases op)
  with Cons.prems have "all_off ops (xor_at i m s)" by (simp add: all_off_xor_at)
  with Cons op show ?case by simp
qed simp

lemma and_xor_keep:
  fixes a m n :: byte
  assumes "m AND n = 0"
  shows "(a XOR n) AND m = a AND m"
proof -
  have "n AND m = 0" using assms by (simp add: and.commute)
  then show ?thesis by (simp add: bit.conj_xor_distrib2)
qed

lemma paint_keeps_bits:
  "list_all (\<lambda>(j, n). i = j \<longrightarrow> m AND n = 0) ops \<Longrightarrow> paint ops s ! i AND m = s ! i AND m"
proof (induction ops arbitrary: s)
  case (Cons op ops)
  obtain j n where op: "op = (j, n)" by (cases op)
  have "xor_at j n s ! i AND m = s ! i AND m"
  proof (cases "i = j \<and> j < length s")
    case True
    with Cons.prems op have "m AND n = 0" by simp
    then show ?thesis using True by (simp add: nth_xor_at and_xor_keep)
  next
    case False
    then show ?thesis by (auto simp: nth_xor_at)
  qed
  moreover have "paint ops (xor_at j n s) ! i AND m = xor_at j n s ! i AND m"
    using Cons.prems op by (intro Cons.IH) simp
  ultimately show ?case using op by simp
qed simp

lemma off_paint_on:
  "all_off ops s \<Longrightarrow> apart_ops ops \<Longrightarrow> \<forall>(i, m) \<in> set ops. i < length s \<Longrightarrow>
   all_on ops (paint ops s)"
proof (induction ops arbitrary: s)
  case (Cons op ops)
  obtain i m where op: "op = (i, m)" by (cases op)
  from Cons.prems op have off': "all_off ops (xor_at i m s)" by (simp add: all_off_xor_at)
  have "paint ops (xor_at i m s) ! i AND m = xor_at i m s ! i AND m"
    using Cons.prems op by (intro paint_keeps_bits) simp
  also have "\<dots> = m"
    using Cons.prems op by (simp add: nth_xor_at bit.conj_xor_distrib2)
  finally have "paint ops (xor_at i m s) ! i AND m = m" .
  moreover have "all_on ops (paint ops (xor_at i m s))"
    using Cons.IH [OF off'] Cons.prems op by simp
  ultimately show ?case using op by simp
qed simp

subsection \<open>The operations of a sprite share no pixel\<close>

lemma apart_ops_append:
  "apart_ops (ops @ ops') \<longleftrightarrow>
     apart_ops ops \<and> apart_ops ops' \<and>
     (\<forall>(i, m) \<in> set ops. \<forall>(j, n) \<in> set ops'. i = j \<longrightarrow> m AND n = 0)"
proof (induction ops)
  case (Cons op ops)
  obtain i m where op: "op = (i, m)" by (cases op)
  show ?case unfolding op using Cons.IH
    by (simp add: list_all_iff ball_Un) blast
qed simp

lemma drop_push_apart:
  fixes b :: byte
  assumes "0 < n" "n < 8"
  shows "drop_bit n b AND push_bit (8 - n) b = 0"
proof (rule bit_eqI)
  fix k
  have "\<not> (bit (drop_bit n b) k \<and> bit (push_bit (8 - n) b) k)"
  proof
    assume a: "bit (drop_bit n b) k \<and> bit (push_bit (8 - n) b) k"
    then have "bit b (n + k)" by (simp add: bit_drop_bit_eq)
    then have "n + k < 8" using bit_imp_le_length by fastforce
    moreover from a have "8 - n \<le> k" by (simp add: bit_push_bit_iff)
    ultimately show False using assms by simp
  qed
  then show "bit (drop_bit n b AND push_bit (8 - n) b) k \<longleftrightarrow> bit (0 :: byte) k"
    by (simp add: bit_and_iff)
qed

lemma row_ops_apart: "apart_ops (row_ops W x y b)"
proof -
  have "unat (x mod 8) < 8" by (simp add: unat_mod)
  then show ?thesis
    by (auto simp: row_ops_def Let_def drop_push_apart)
qed

lemma row_ops_row:
  assumes "8 dvd unat W" "8 \<le> unat W" "x < W" "(i, m) \<in> set (row_ops W x y b)"
  shows "i div (unat W div 8) = unat y"
proof -
  from assms(1,2) obtain bw where bw: "unat W = 8 * bw" "0 < bw" by (auto elim: dvdE)
  have "unat x < unat W" using assms(3) by (simp add: word_less_nat_alt)
  then have xb: "unat x div 8 < bw" using bw by simp
  have mb: "(unat x div 8 + 1) mod bw < bw" using bw by simp
  from assms(4) have "i = unat y * bw + unat x div 8 \<or> i = unat y * bw + (unat x div 8 + 1) mod bw"
    using bw by (auto simp: row_ops_def Let_def split: if_splits)
  then show ?thesis using xb mb bw by auto
qed

lemma unat_next_row:
  fixes y H :: byte
  assumes "y < H"
  shows "unat ((y + 1) mod H) = (unat y + 1) mod unat H" and "(y + 1) mod H < H"
proof -
  have "unat y < unat H" using assms by (simp add: word_less_nat_alt)
  moreover have "unat H < 256" by (rule unat_byte_less)
  ultimately have "unat y + unat (1 :: byte) < 2 ^ LENGTH(8)" by simp
  then have "unat (y + 1) = unat y + 1" by (simp add: unat_add_lem [THEN iffD1])
  then show "unat ((y + 1) mod H) = (unat y + 1) mod unat H" by (simp add: unat_mod)
  have "H \<noteq> 0" using assms by auto
  then show "(y + 1) mod H < H" by (simp add: word_mod_less_divisor word_gt_0)
qed

lemma sprite_ops_rows:
  assumes "8 dvd unat W" "8 \<le> unat W" "x < W" "y < H" "(i, m) \<in> set (sprite_ops W H x y bs)"
  shows "\<exists>j < length bs. i div (unat W div 8) = (unat y + j) mod unat H"
  using assms(4,5)
proof (induction bs arbitrary: y)
  case (Cons b bs)
  have yH: "unat y < unat H" using Cons.prems(1) by (simp add: word_less_nat_alt)
  from Cons.prems(2) consider "(i, m) \<in> set (row_ops W x y b)"
    | "(i, m) \<in> set (sprite_ops W H x ((y + 1) mod H) bs)" by auto
  then show ?case
  proof cases
    case 1
    from row_ops_row [OF assms(1,2,3) 1] yH show ?thesis by auto
  next
    case 2
    from Cons.IH [OF unat_next_row(2) [OF Cons.prems(1)] 2]
    obtain j where j: "j < length bs"
      and "i div (unat W div 8) = (unat ((y + 1) mod H) + j) mod unat H" by blast
    then have "i div (unat W div 8) = (unat y + Suc j) mod unat H"
      by (simp add: unat_next_row(1) [OF Cons.prems(1)] mod_add_left_eq)
    with j show ?thesis by (intro exI [of _ "Suc j"]) simp
  qed
qed simp

lemma mod_shift_neq:
  fixes y d H :: nat
  assumes "y < H" "0 < d" "d < H"
  shows "(y + d) mod H \<noteq> y"
proof (cases "y + d < H")
  case True
  with assms show ?thesis by simp
next
  case False
  then have "(y + d) mod H = (y + d - H) mod H" by (simp add: le_mod_geq)
  also have "\<dots> = y + d - H" using assms by simp
  finally show ?thesis using assms False by simp
qed

lemma sprite_ops_apart:
  assumes "8 dvd unat W" "8 \<le> unat W" "x < W" "y < H" "length bs \<le> unat H"
  shows "apart_ops (sprite_ops W H x y bs)"
  using assms(4,5)
proof (induction bs arbitrary: y)
  case (Cons b bs)
  have yH: "unat y < unat H" using Cons.prems(1) by (simp add: word_less_nat_alt)
  have tail: "apart_ops (sprite_ops W H x ((y + 1) mod H) bs)"
    using Cons.IH [OF unat_next_row(2) [OF Cons.prems(1)]] Cons.prems(2) by simp
  have cross: "i \<noteq> j" if r: "(i, m) \<in> set (row_ops W x y b)"
    and t: "(j, n) \<in> set (sprite_ops W H x ((y + 1) mod H) bs)" for i m j n
  proof -
    from sprite_ops_rows [OF assms(1,2,3) unat_next_row(2) [OF Cons.prems(1)] t]
    obtain k where k: "k < length bs"
      and "j div (unat W div 8) = (unat ((y + 1) mod H) + k) mod unat H" by blast
    then have "j div (unat W div 8) = (unat y + Suc k) mod unat H"
      by (simp add: unat_next_row(1) [OF Cons.prems(1)] mod_add_left_eq)
    moreover have "(unat y + Suc k) mod unat H \<noteq> unat y"
      using yH k Cons.prems(2) by (intro mod_shift_neq) simp_all
    ultimately show ?thesis using row_ops_row [OF assms(1,2,3) r] by auto
  qed
  have "\<forall>(i, m) \<in> set (row_ops W x y b).
      \<forall>(j, n) \<in> set (sprite_ops W H x ((y + 1) mod H) bs). i = j \<longrightarrow> m AND n = 0"
    using cross by blast
  then show ?case
    using tail row_ops_apart [of W x y b] by (simp add: apart_ops_append)
qed simp

lemma sprite_map:
  assumes "unat (I c) + n \<le> length (Memory c)"
  shows "map (\<lambda>j. Memory c ! (unat (I c) + j)) [0..<n] = sprite c n"
  using assms by (auto simp: sprite_def list_eq_iff_nth_eq)

subsection \<open>The size of the screen\<close>

text \<open>
  No cycle writes \<open>Width\<close> or \<open>Height\<close>, and the height that \<open>New\<close> accepts is at
  least 15, the most rows an opcode can ask for: no sprite is higher than the screen.
\<close>

lemma size_fold:
  assumes "\<And>i c. Width (f i c) = Width c \<and> Height (f i c) = Height c"
  shows "Width (fold f xs c) = Width c \<and> Height (fold f xs c) = Height c"
  by (induction xs arbitrary: c) (simp_all add: assms)

lemma size_stack_set [simp]:
  "Width (stack_set c i v) = Width c" "Height (stack_set c i v) = Height c"
  by (simp_all add: stack_set_def split: slice.splits)

lemma size_draw_rows:
  "draw_rows n off x y c = Some c' \<Longrightarrow> Width c' = Width c \<and> Height c' = Height c"
proof (induction n arbitrary: off y c)
  case (Suc n)
  then show ?case
    by (auto split: option.splits dest!: draw_row_frame)
qed simp

lemma size_first_arms:
  "Width (add_register x y c) = Width c \<and> Height (add_register x y c) = Height c"
  "Width (sub_register x y c) = Width c \<and> Height (sub_register x y c) = Height c"
  "Width (subn x y c) = Width c \<and> Height (subn x y c) = Height c"
  "Width (shr x y c) = Width c \<and> Height (shr x y c) = Height c"
  "Width (shl x y c) = Width c \<and> Height (shl x y c) = Height c"
  by (simp_all add: add_register_def sub_register_def subn_def shr_def shl_def Let_def)

lemma size_ld:
  "Width (ldMemory x c) = Width c \<and> Height (ldMemory x c) = Height c"
  "Width (ldSetMemory x c) = Width c \<and> Height (ldSetMemory x c) = Height c"
  unfolding ldMemory_def ldSetMemory_def
  by (auto intro!: size_fold [THEN conjunct1] size_fold [THEN conjunct2])

lemma size_run:
  assumes "run k rnd a c = Return e c' evs"
  shows "Width c' = Width c \<and> Height c' = Height c"
proof (cases k)
  case Sys
  with assms show ?thesis
    using size_fold [of "\<lambda>i c'. screen_set c' i 0" "[0..<screen_len c]" c]
    by (auto simp: ok_def fail_def cls_def ret_def split: if_splits)
next
  case Call
  with assms show ?thesis
    by (auto simp: ok_def fail_def call_def Let_def split: if_splits)
next
  case Drw
  with assms show ?thesis
    by (auto simp: drw_def fail_def Let_def split: if_splits option.splits dest!: size_draw_rows)
next
  case LdSetMemory
  with assms size_ld(2) show ?thesis
    by (auto simp: ld_set_memory_def ok_def fail_def Let_def split: if_splits)
next
  case LdMemory
  with assms size_ld(1) show ?thesis
    by (auto simp: ld_memory_def ok_def fail_def Let_def split: if_splits)
qed (use assms size_first_arms in \<open>auto simp: ok_def fail_def skip_def skp_def sknp_def ld_bcd_def
      Let_def split: if_splits\<close>)

lemma size_Tick:
  assumes wf: "well_formed c" and t: "Tick now rnd c = Return e c' evs"
  shows "Width c' = Width c \<and> Height c' = Height c"
proof (cases "at_fetch c")
  case None
  with assms show ?thesis by (simp add: Tick_at_fetch)
next
  case (Some c0)
  then have s0: "Width c0 = Width c" "Height c0 = Height c"
    by (auto simp: at_fetch_def split: option.splits if_splits)
  have wf0: "well_formed c0" using wf Some by (rule wf_at_fetch)
  from wf t Some have r: "fetch_exec now rnd c0 = Return e c' evs" by (simp add: Tick_at_fetch)
  define a where "a = unat (PC c0)"
  define c1 where "c1 = c0\<lparr>PC := PC c0 + 2\<rparr>"
  define k where "k = Tick_switch (opcode0 c1 a) (opcode1 c1 a)"
  have wf1: "well_formed c1" using wf0 by (simp add: c1_def)
  from r obtain e2 c2 evs2 where run: "run k rnd a c1 = Return e2 c2 evs2"
    and rest: "(case e2 of Some e' \<Rightarrow> Return (Some e') c2 (OnUpdate # evs2)
        | None \<Rightarrow> (let t = (case lastTimerUpdate c2 of None \<Rightarrow> now | Some t \<Rightarrow> t) in
             case timers now t c2 (OnUpdate # evs2) of
               None \<Rightarrow> Hang
             | Some (c3, evs') \<Rightarrow> Return None c3 evs')) = Return e c' evs"
    unfolding fetch_exec_def Let_def a_def [symmetric] c1_def [symmetric] k_def [symmetric]
    by (auto split: if_splits result.splits option.splits)
  have s2: "Width c2 = Width c \<and> Height c2 = Height c"
    using size_run [OF run] s0 by (simp add: c1_def)
  show ?thesis
  proof (cases e2)
    case (Some e')
    with rest s2 show ?thesis by simp
  next
    case None
    define t where "t = (case lastTimerUpdate c2 of None \<Rightarrow> now | Some t \<Rightarrow> t)"
    have "0 < TimerInterval c2" using wf_run [OF wf1 run] by (simp add: well_formed_def)
    from timers_total [OF this, of now t "OnUpdate # evs2"]
    obtain d s t' evs' where
      "timers now t c2 (OnUpdate # evs2) = Some (c2\<lparr>DT := d, ST := s, lastTimerUpdate := Some t'\<rparr>, evs')"
      by blast
    with rest None have "c' = c2\<lparr>DT := d, ST := s, lastTimerUpdate := Some t'\<rparr>"
      by (simp add: Let_def t_def)
    with s2 show ?thesis by simp
  qed
qed

lemma New_screen_high:
  assumes "New s = Some (Some (c, evs))"
  shows "unat ((b :: byte) AND 0x0F) \<le> unat (Height c)"
proof -
  from assms have "Validate s" and "Height c = SHeight s"
    by (auto simp: New_def Let_def split: if_splits)
  then have "15 \<le> unat (Height c)" by (simp add: Validate_def word_less_nat_alt)
  moreover have "unat (b AND 0x0F) < 16" by (rule low_nibble_less)
  ultimately show ?thesis by simp
qed

subsection \<open>Two draws in succession\<close>

lemma drw_checks:
  fixes rows :: byte
  assumes wf: "well_formed c" and inmem: "unat (I c) + unat rows \<le> length (Memory c)"
  shows "\<not> 0xFFFF - I c < ucast rows"
    and "\<not> int (unat (I c)) + int (unat rows) - 1 \<ge> int (length (Memory c))"
proof -
  have len: "length (Memory c) \<le> 65535" using wf by (simp add: well_formed_def)
  have "unat (I c) < 65536" using unsigned_less [of "I c", where ?'a = nat] by simp
  then have "I c \<le> 0xFFFF" by (simp add: word_le_nat_alt)
  then have "unat (0xFFFF - I c) = unat (0xFFFF :: uint16) - unat (I c)" by (rule unat_sub)
  then have "unat (0xFFFF - I c) = 65535 - unat (I c)" by simp
  moreover have "unat (ucast rows :: uint16) = unat rows" by simp
  ultimately show "\<not> 0xFFFF - I c < ucast rows"
    using inmem len by (simp add: word_less_nat_alt)
  show "\<not> int (unat (I c)) + int (unat rows) - 1 \<ge> int (length (Memory c))"
    using inmem by linarith
qed

lemma default_machine_zero:
  assumes "length p \<le> 3584" "default_machine p = Some c" "512 + length p \<le> i" "i < 4096"
  shows "Memory c ! i = 0"
  using assms
  by (auto simp: default_machine_def New_def Validate_def DefaultSettings_def Load_def copy_def
      length_fonts nth_append Let_def split: if_splits)

text \<open>
  C8, as amended.  DXYN executed twice in succession, on a screen where the pixels of
  the sprite are off before the first draw, whatever \<open>V[0xF]\<close> holds then: for a sprite
  that lies in the memory and not in the screen's own memory, that is no higher than the
  screen and has a set bit, and for registers \<open>X\<close>, \<open>Y\<close> that give both draws the same
  coordinates.  The first draw returns nil, turns the pixels of the sprite on and leaves
  \<open>V[0xF] = 0\<close>; the second returns nil, turns them off again, leaves the screen as it
  was before the first and leaves \<open>V[0xF] = 1\<close>.
\<close>

theorem draw_twice:
  assumes wf: "well_formed c"
    and inmem: "unat (I c) + unat rows \<le> length (Memory c)"
    and high: "unat rows \<le> unat (Height c)"
    and apart: "sprite_apart c (unat rows)"
    and same: "same_place c X Y"
    and nonempty: "\<exists>b \<in> set (sprite c (unat rows)). b \<noteq> 0"
    and off: "all_off (drawn c X Y rows) (pixels c)"
  shows "\<exists>c1 c2. drw X Y rows c = Return None c1 [UpdateScreen] \<and> V c1 ! 0xF = 0 \<and>
           all_on (drawn c X Y rows) (pixels c1) \<and>
           drw X Y rows c1 = Return None c2 [UpdateScreen] \<and> V c2 ! 0xF = 1 \<and>
           all_off (drawn c X Y rows) (pixels c2) \<and> pixels c2 = pixels c"
proof -
  define ops where "ops = drawn c X Y rows"
  have lenV: "length (V c) = 16" and W: "8 dvd unat (Width c)" "8 \<le> unat (Width c)"
    and H: "0 < unat (Height c)"
    using wf by (simp_all add: well_formed_def)
  have W0: "Width c \<noteq> 0" and H0: "Height c \<noteq> 0" using W H by auto
  have x: "V c ! X mod Width c < Width c" and y: "V c ! Y mod Height c < Height c"
    using W0 H0 by (simp_all add: word_mod_less_divisor word_gt_0)
  note chk = drw_checks [OF wf inmem]
  from drw_returns [OF wf chk]
  obtain c1 where first: "drw X Y rows c = Return None c1 [UpdateScreen]" by blast
  have bs: "map (\<lambda>j. Memory c ! (unat (I c) + j)) [0..<unat rows] = sprite c (unat rows)"
    using inmem by (rule sprite_map)
  have ops_c: "sprite_ops (Width c) (Height c) (V c ! X mod Width c) (V c ! Y mod Height c)
      (map (\<lambda>j. Memory c ! (unat (I c) + j)) [0..<unat rows]) = ops"
    by (simp add: bs ops_def drawn_def)
  note d1 = drw_ops [OF wf apart first refl, unfolded ops_c]
  have "length (sprite c (unat rows)) \<le> unat (Height c)"
    using high by (simp add: sprite_def)
  then have ap: "apart_ops ops"
    unfolding ops_def drawn_def by (intro sprite_ops_apart W x y)
  have nc: "\<not> clears ops (pixels c)"
    using off ap unfolding ops_def [symmetric] by (rule off_not_clears)
  have V1: "V c1 = (V c)[0xF := 0]" using d1(2) nc by simp
  then have f1: "V c1 ! 0xF = 0" using lenV by simp
  have on1: "all_on ops (pixels c1)"
    unfolding d1(1) using off ap d1(3) unfolding ops_def [symmetric] by (intro off_paint_on)
  have inmem1: "unat (I c1) + unat rows \<le> length (Memory c1)"
    using inmem d1(7,10) by simp
  note chk1 = drw_checks [OF d1(4) inmem1]
  from drw_returns [OF d1(4) chk1]
  obtain c2 where second: "drw X Y rows c1 = Return None c2 [UpdateScreen]" by blast
  have bs1: "map (\<lambda>j. Memory c1 ! (unat (I c1) + j)) [0..<unat rows] = sprite c (unat rows)"
    unfolding bs [symmetric] using d1(7,9) by (intro map_cong refl) simp
  have ops_c1: "sprite_ops (Width c1) (Height c1) (V c1 ! X mod Width c1) (V c1 ! Y mod Height c1)
      (map (\<lambda>j. Memory c1 ! (unat (I c1) + j)) [0..<unat rows]) = ops"
    using same by (simp add: bs1 ops_def drawn_def d1(5,6) V1 same_place_def)
  note d2 = drw_ops [OF d1(4) d1(8) second refl, unfolded ops_c1]
  have nz: "\<exists>(i, m) \<in> set ops. m \<noteq> 0"
    unfolding ops_def drawn_def using nonempty by (rule sprite_ops_nonzero)
  from paint_again [OF nc d1(3) nz]
  have restored: "paint ops (paint ops (pixels c)) = pixels c"
    and hit: "clears ops (paint ops (pixels c))"
    by simp_all
  have p2: "pixels c2 = pixels c" using d2(1) d1(1) restored by simp
  have "length (V c1) = 16" using d1(4) by (simp add: well_formed_def)
  then have f2: "V c2 ! 0xF = 1" using d2(2) d1(1) hit by simp
  show ?thesis
    using first f1 on1 second f2 p2 off unfolding ops_def by auto
qed

text \<open>
  On the default machine, after \<open>LD VF,01\<close>, \<open>LD V0,04\<close> and \<open>LD I,20A\<close>: the
  one-row sprite \<open>FF\<close> drawn twice at \<open>(4, 0)\<close>, across the first two bytes of the
  clear screen, with \<open>V[0xF] = 1\<close> before the first draw.
\<close>

theorem draw_twice_witness:
  "\<exists>c0 r1 r2 c evs.
     default_machine [0x6F, 0x01, 0x60, 0x04, 0xA2, 0x0A, 0xD0, 0x11, 0xD0, 0x11, 0xFF] = Some c0 \<and>
     Run [(0, 0), (0, 0), (0, 0)] c0 = [r1, r2, Return None c evs] \<and>
     well_formed c \<and> V c ! 0xF = 1 \<and>
     unat (I c) + unat (1 :: byte) \<le> length (Memory c) \<and> unat (1 :: byte) \<le> unat (Height c) \<and>
     sprite_apart c (unat (1 :: byte)) \<and> same_place c 0 1 \<and>
     sprite c (unat (1 :: byte)) = [0xFF] \<and> drawn c 0 1 1 = [(0, 0x0F), (1, 0xF0)] \<and>
     all_off (drawn c 0 1 1) (pixels c) \<and>
     (\<exists>c1 c2. drw 0 1 1 c = Return None c1 [UpdateScreen] \<and> V c1 ! 0xF = 0 \<and>
        all_on (drawn c 0 1 1) (pixels c1) \<and>
        drw 0 1 1 c1 = Return None c2 [UpdateScreen] \<and> V c2 ! 0xF = 1 \<and>
        all_off (drawn c 0 1 1) (pixels c2) \<and> pixels c2 = pixels c)"
proof -
  define p :: "byte list" where
    "p = [0x6F, 0x01, 0x60, 0x04, 0xA2, 0x0A, 0xD0, 0x11, 0xD0, 0x11, 0xFF]"
  have lp: "length p \<le> 3584" "p \<noteq> []" by (simp_all add: p_def)
  obtain c0 where dm: "default_machine p = Some c0"
    and len: "length (Memory c0) = 4096"
    and prog: "\<forall>i < length p. Memory c0 ! (512 + i) = p ! i"
    and fields: "V c0 = replicate 16 0" "PC c0 = 0x200" "wii c0 = None"
      "TimerInterval c0 = 16666666" "lastTimerUpdate c0 = None"
      "Screen c0 = View 0xF00 256" "Width c0 = 64" "Height c0 = 32" "I c0 = 0"
    using default_machine_Some [OF lp] by auto
  from prog [rule_format, of 0] prog [rule_format, of 1] prog [rule_format, of 2]
    prog [rule_format, of 3] prog [rule_format, of 4] prog [rule_format, of 5]
    prog [rule_format, of 10]
  have m: "Memory c0 ! 512 = 0x6F" "Memory c0 ! 513 = 0x01" "Memory c0 ! 514 = 0x60"
    "Memory c0 ! 515 = 0x04" "Memory c0 ! 516 = 0xA2" "Memory c0 ! 517 = 0x0A"
    "Memory c0 ! 522 = 0xFF"
    by (simp_all add: p_def)
  have z: "Memory c0 ! 3840 = 0" "Memory c0 ! 3841 = 0"
    using default_machine_zero [OF lp(1) dm] by (simp_all add: p_def)
  have wf0: "well_formed c0" using dm by (rule wf_default_machine)
  define ca where "ca = c0\<lparr>V := (replicate 16 0)[15 := 1], PC := 0x202, lastTimerUpdate := Some 0\<rparr>"
  define cb where "cb = ca\<lparr>V := (replicate 16 0)[15 := 1, 0 := 4], PC := 0x204\<rparr>"
  define c where "c = cb\<lparr>I := 0x20A, PC := 0x206\<rparr>"
  have t1: "Tick 0 0 c0 = Return None ca [OnUpdate]"
    by (simp add: tick_eval len m fields ca_def)
  have t2: "Tick 0 0 ca = Return None cb [OnUpdate]"
    by (simp add: tick_eval len m fields ca_def cb_def)
  have t3: "Tick 0 0 cb = Return None c [OnUpdate]"
    by (simp add: tick_eval len m fields ca_def cb_def c_def)
  have run: "Run [(0, 0), (0, 0), (0, 0)] c0 =
      [Return None ca [OnUpdate], Return None cb [OnUpdate], Return None c [OnUpdate]]"
    by (simp add: t1 t2 t3)
  have wf: "well_formed c" using wf_Tick [OF wf_Tick [OF wf_Tick [OF wf0 t1] t2] t3] .
  have cf: "V c ! 0 = 4" "V c ! Suc 0 = 0" "V c ! 0xF = 1" "length (V c) = 16" "I c = 0x20A"
    "Memory c ! 522 = 0xFF" "Width c = 64" "Height c = 32" "length (Memory c) = 4096"
    "Screen c = View 0xF00 256" "Memory c ! 3840 = 0" "Memory c ! 3841 = 0"
    by (simp_all add: c_def cb_def ca_def m z fields len replicate_16)
  have inmem: "unat (I c) + unat (1 :: byte) \<le> length (Memory c)" by (simp add: cf)
  have high: "unat (1 :: byte) \<le> unat (Height c)" by (simp add: cf)
  have apart: "sprite_apart c (unat (1 :: byte))" by (simp add: sprite_apart_def cf)
  have same: "same_place c 0 1" by (simp add: same_place_def cf)
  have sp: "sprite c (unat (1 :: byte)) = [0xFF]"
    using sprite_map [OF inmem] by (simp add: cf)
  have sp1: "sprite c (Suc 0) = [0xFF]" using sp by simp
  have dr: "drawn c 0 1 1 = [(0, 0x0F), (1, 0xF0)]"
    by (simp add: drawn_def sp1 cf row_ops_def)
  have px: "pixels c ! 0 = 0" "pixels c ! Suc 0 = 0"
    by (simp_all add: pixels_def cf)
  have off: "all_off (drawn c 0 1 1) (pixels c)"
    unfolding dr by (simp add: px)
  have nonempty: "\<exists>b \<in> set (sprite c (unat (1 :: byte))). b \<noteq> 0" by (simp add: sp1)
  from draw_twice [OF wf inmem high apart same nonempty off]
  obtain c1 c2 where "drw 0 1 1 c = Return None c1 [UpdateScreen]" "V c1 ! 0xF = 0"
    "all_on (drawn c 0 1 1) (pixels c1)" "drw 0 1 1 c1 = Return None c2 [UpdateScreen]"
    "V c2 ! 0xF = 1" "all_off (drawn c 0 1 1) (pixels c2)" "pixels c2 = pixels c"
    by blast
  then show ?thesis
    using dm [unfolded p_def] run wf cf(3) inmem high apart same sp dr off by blast
qed

lemmas drw_eval = drw_def draw_row_def collision.simps screen_get_def screen_set_def
  screen_len_def

text \<open>
  C8 as stated fails on a screen where the pixels of the sprite are on.  The program
  \<open>6004 A20A D011 D011 D011\<close> draws the sprite \<open>FF\<close> three times at \<open>(4, 0)\<close>.  Its
  second and third draws are two draws in succession at the same coordinates with the
  same sprite: after them the pixels of the sprite are on, not off, and \<open>V[0xF]\<close> is 0,
  not 1.
\<close>

theorem draw_twice_counterexample:
  "(case default_machine [0x60, 0x04, 0xA2, 0x0A, 0xD0, 0x11, 0xD0, 0x11, 0xD0, 0x11, 0xFF] of
      None \<Rightarrow> False
    | Some c \<Rightarrow>
        (case Run [(0, 0), (0, 0), (0, 0), (0, 0), (0, 0)] c of
           [r1, r2, Return None c3 evs3, Return None c4 evs4, Return None c5 evs5] \<Rightarrow>
             V c3 ! 0 = 4 \<and> V c3 ! 1 = 0 \<and> I c3 = 0x20A \<and> Memory c3 ! 0x20A = 0xFF \<and>
             screen_get c3 0 = 0x0F \<and> screen_get c3 1 = 0xF0 \<and> V c3 ! 0xF = 0 \<and>
             V c4 ! 0 = 4 \<and> V c4 ! 1 = 0 \<and> I c4 = 0x20A \<and> Memory c4 ! 0x20A = 0xFF \<and>
             screen_get c4 0 = 0 \<and> screen_get c4 1 = 0 \<and> V c4 ! 0xF = 1 \<and>
             screen_get c5 0 = 0x0F \<and> screen_get c5 1 = 0xF0 \<and> V c5 ! 0xF = 0
         | _ \<Rightarrow> False))"
proof -
  define p :: "byte list" where
    "p = [0x60, 0x04, 0xA2, 0x0A, 0xD0, 0x11, 0xD0, 0x11, 0xD0, 0x11, 0xFF]"
  have lp: "length p \<le> 3584" "p \<noteq> []" by (simp_all add: p_def)
  obtain c0 where dm: "default_machine p = Some c0"
    and len: "length (Memory c0) = 4096"
    and prog: "\<forall>i < length p. Memory c0 ! (512 + i) = p ! i"
    and fields: "V c0 = replicate 16 0" "PC c0 = 0x200" "wii c0 = None"
      "TimerInterval c0 = 16666666" "lastTimerUpdate c0 = None"
      "Screen c0 = View 0xF00 256" "Width c0 = 64" "Height c0 = 32" "I c0 = 0"
    using default_machine_Some [OF lp] by auto
  from prog [rule_format, of 0] prog [rule_format, of 1] prog [rule_format, of 2]
    prog [rule_format, of 3] prog [rule_format, of 4] prog [rule_format, of 5]
    prog [rule_format, of 6] prog [rule_format, of 7] prog [rule_format, of 8]
    prog [rule_format, of 9] prog [rule_format, of 10]
  have m: "Memory c0 ! 512 = 0x60" "Memory c0 ! 513 = 0x04" "Memory c0 ! 514 = 0xA2"
    "Memory c0 ! 515 = 0x0A" "Memory c0 ! 516 = 0xD0" "Memory c0 ! 517 = 0x11"
    "Memory c0 ! 518 = 0xD0" "Memory c0 ! 519 = 0x11" "Memory c0 ! 520 = 0xD0"
    "Memory c0 ! 521 = 0x11" "Memory c0 ! 522 = 0xFF"
    by (simp_all add: p_def)
  have z: "Memory c0 ! 3840 = 0" "Memory c0 ! 3841 = 0"
    using default_machine_zero [OF lp(1) dm] by (simp_all add: p_def)
  define c1 where "c1 = c0\<lparr>V := (replicate 16 0)[0 := 4], PC := 0x202, lastTimerUpdate := Some 0\<rparr>"
  define c2 where "c2 = c1\<lparr>I := 0x20A, PC := 0x204\<rparr>"
  define c3 where "c3 = c2\<lparr>Memory := (Memory c0)[3840 := 0x0F, 3841 := 0xF0], PC := 0x206\<rparr>"
  define c4 where "c4 = c2\<lparr>Memory := (Memory c0)[3840 := 0x0F, 3841 := 0xF0, 3840 := 0, 3841 := 0],
     V := (replicate 16 0)[0 := 4, 15 := 1], PC := 0x208\<rparr>"
  define c5 where "c5 = c2\<lparr>Memory := (Memory c0)[3840 := 0x0F, 3841 := 0xF0, 3840 := 0, 3841 := 0,
     3840 := 0x0F, 3841 := 0xF0], PC := 0x20A\<rparr>"
  have t1: "Tick 0 0 c0 = Return None c1 [OnUpdate]"
    by (simp add: tick_eval len m fields c1_def)
  have t2: "Tick 0 0 c1 = Return None c2 [OnUpdate]"
    by (simp add: tick_eval len m fields c1_def c2_def)
  have n: "(4080 :: byte) = 240" by simp
  have t3: "Tick 0 0 c2 = Return None c3 [OnUpdate, UpdateScreen]"
    by (simp add: tick_eval drw_eval len m z fields c1_def c2_def c3_def replicate_16 n)
  have t4: "Tick 0 0 c3 = Return None c4 [OnUpdate, UpdateScreen]"
    by (simp add: tick_eval drw_eval len m z fields c1_def c2_def c3_def c4_def replicate_16 n)
  have t5: "Tick 0 0 c4 = Return None c5 [OnUpdate, UpdateScreen]"
    by (simp add: tick_eval drw_eval len m z fields c1_def c2_def c4_def c5_def replicate_16 n)
  have "V c3 ! 0 = 4 \<and> V c3 ! 1 = 0 \<and> I c3 = 0x20A \<and> Memory c3 ! 0x20A = 0xFF \<and>
      screen_get c3 0 = 0x0F \<and> screen_get c3 1 = 0xF0 \<and> V c3 ! 0xF = 0 \<and>
      V c4 ! 0 = 4 \<and> V c4 ! 1 = 0 \<and> I c4 = 0x20A \<and> Memory c4 ! 0x20A = 0xFF \<and>
      screen_get c4 0 = 0 \<and> screen_get c4 1 = 0 \<and> V c4 ! 0xF = 1 \<and>
      screen_get c5 0 = 0x0F \<and> screen_get c5 1 = 0xF0 \<and> V c5 ! 0xF = 0"
    by (simp add: screen_get_def c1_def c2_def c3_def c4_def c5_def fields len m replicate_16)
  then show ?thesis
    by (simp add: dm [unfolded p_def] t1 t2 t3 t4 t5)
qed

end
